theory Spec2Isabelle
  imports Main "HOL-Library.Word" "HOL-Library.Sublist"
begin

section \<open>Errors and their classification (retry.go, session.go)\<close>

text \<open>
  The gRPC status codes (\<^verbatim>\<open>google.golang.org/grpc/codes\<close>), in their numeric order.
\<close>

datatype codes =
    OK | Canceled | Unknown | InvalidArgument | DeadlineExceeded | NotFound
  | AlreadyExists | PermissionDenied | ResourceExhausted | FailedPrecondition
  | Aborted | OutOfRange | Unimplemented | Internal | Unavailable | DataLoss
  | Unauthenticated

text \<open>
  \<^verbatim>\<open>metadata.MD\<close> is \<^verbatim>\<open>map[string][]string\<close>. A \<^verbatim>\<open>*spanner.Error\<close> carries a code, a
  description and the trailers of the RPC; the literal \<^verbatim>\<open>&Error{code, desc, trailers}\<close> of
  \<^verbatim>\<open>errRetry\<close> fixes the order of the fields. A Go \<^verbatim>\<open>error\<close> is \<open>None\<close> for \<^verbatim>\<open>nil\<close>.
\<close>

type_synonym MD = "string \<rightharpoonup> string list"

record Error =
  Code :: codes
  Desc :: string
  trailers :: "MD option"

type_synonym error = "Error option"

text \<open>
  Modelled from the spec: \<^verbatim>\<open>ErrCode\<close>, \<^verbatim>\<open>ErrDesc\<close> and \<^verbatim>\<open>errTrailers\<close> live in errors.go, which
  is not among the sources. The spec describes a failure as a code/message pair, and retry.go
  reads the trailers of an error through \<^verbatim>\<open>errTrailers\<close>; here they read the fields.
\<close>

definition ErrCode :: "Error \<Rightarrow> codes" where
  "ErrCode e = Code e"

definition ErrDesc :: "Error \<Rightarrow> string" where
  "ErrDesc e = Desc e"

definition errTrailers :: "Error \<Rightarrow> MD option" where
  "errTrailers e = trailers e"

text \<open>\<^verbatim>\<open>strings.HasPrefix\<close> and \<^verbatim>\<open>strings.Contains\<close> of the Go library, on byte strings.\<close>

fun strings_HasPrefix :: "string \<Rightarrow> string \<Rightarrow> bool" where
  "strings_HasPrefix s [] = True"
| "strings_HasPrefix [] (c # p) = False"
| "strings_HasPrefix (d # s) (c # p) = (d = c \<and> strings_HasPrefix s p)"

fun strings_Contains :: "string \<Rightarrow> string \<Rightarrow> bool" where
  "strings_Contains [] substr = strings_HasPrefix [] substr"
| "strings_Contains (d # s) substr =
     (strings_HasPrefix (d # s) substr \<or> strings_Contains s substr)"

definition isErrorClosing :: "error \<Rightarrow> bool" where
  "isErrorClosing err =
     (case err of
        None \<Rightarrow> False
      | Some e \<Rightarrow>
          if ErrCode e = Internal \<and> strings_Contains (ErrDesc e) ''transport is closing''
          then True else False)"

definition isErrorRST :: "error \<Rightarrow> bool" where
  "isErrorRST err =
     (case err of
        None \<Rightarrow> False
      | Some e \<Rightarrow>
          if ErrCode e = Internal
             \<and> strings_Contains (ErrDesc e) ''stream terminated by RST_STREAM''
          then True else False)"

definition isErrorUnexpectedEOF :: "error \<Rightarrow> bool" where
  "isErrorUnexpectedEOF err =
     (case err of
        None \<Rightarrow> False
      | Some e \<Rightarrow>
          if ErrCode e = Internal \<and> strings_Contains (ErrDesc e) ''unexpected EOF''
          then True
          else if ErrCode e = Unknown \<and> strings_Contains (ErrDesc e) ''unexpected EOF''
          then True else False)"

definition isErrorUnavailable :: "error \<Rightarrow> bool" where
  "isErrorUnavailable err =
     (case err of
        None \<Rightarrow> False
      | Some e \<Rightarrow> if ErrCode e = Unavailable then True else False)"

definition isRetryable :: "error \<Rightarrow> bool" where
  "isRetryable err =
     (if isErrorClosing err then True
      else if isErrorUnexpectedEOF err then True
      else if isErrorRST err then True
      else if isErrorUnavailable err then True
      else False)"

definition shouldDropSession :: "error \<Rightarrow> bool" where
  "shouldDropSession err =
     (case err of
        None \<Rightarrow> False
      | Some e \<Rightarrow>
          if ErrCode e = NotFound \<and> strings_Contains (ErrDesc e) ''Session not found''
          then True else False)"

section \<open>The retryable invoker (retry.go)\<close>

text \<open>
  What retry.go uses and the sources do not hold is taken as a parameter:
  \<^item> \<open>Error_string\<close>: the \<^verbatim>\<open>Error()\<close> method of \<^verbatim>\<open>*spanner.Error\<close>, which \<^verbatim>\<open>%v\<close> prints;
  \<^item> \<open>Delay\<close>: \<^verbatim>\<open>backoff.DefaultBackoff.Delay(retryCount)\<close>, in nanoseconds;
  \<^item> \<open>decodeRetryInfo\<close>: \<^verbatim>\<open>metadata.DecodeKeyValue\<close>, \<^verbatim>\<open>proto.Unmarshal\<close> and
    \<^verbatim>\<open>ptypes.Duration\<close> in a row on the first element of the trailer, \<open>None\<close> when one
    of the three fails.
\<close>

record env =
  Error_string :: "Error \<Rightarrow> string"
  Delay :: "nat \<Rightarrow> int"
  decodeRetryInfo :: "string \<Rightarrow> int option"

definition retryInfoKey :: string where
  "retryInfoKey = ''google.rpc.retryinfo-bin''"

text \<open>
  Modelled from the spec: \<^verbatim>\<open>spannerErrorf(code, format, args...)\<close> (errors.go) is not among
  the sources. The spec's errors carry a code and a detail, and \<^verbatim>\<open>errRetry\<close> uses the
  function beside the literal \<^verbatim>\<open>&Error{code, fmt.Sprintf(...), trailers}\<close>: an error of that
  code whose description is the formatted message, with no trailers. The message is passed
  formatted.
\<close>

definition spannerErrorf :: "codes \<Rightarrow> string \<Rightarrow> Error" where
  "spannerErrorf code msg = \<lparr>Code = code, Desc = msg, trailers = None\<rparr>"

text \<open>
  Modelled from the spec: \<^verbatim>\<open>toSpannerError\<close> (errors.go) is not among the sources. Every
  error of this model is a \<^verbatim>\<open>*spanner.Error\<close> already, which the spec says is passed through
  unchanged; \<^verbatim>\<open>nil\<close> stays \<^verbatim>\<open>nil\<close>.
\<close>

definition toSpannerError :: "error \<Rightarrow> error" where
  "toSpannerError err = err"

text \<open>
  \<^verbatim>\<open>ctx.Err()\<close> of a context that is done is one of the two errors of package context; their
  texts are those of the Go library. \<^verbatim>\<open>%v\<close> prints a \<^verbatim>\<open>nil\<close> error as \<^verbatim>\<open><nil>\<close>.
\<close>

datatype ctxErr = context_Canceled | context_DeadlineExceeded

fun ctxErr_string :: "ctxErr \<Rightarrow> string" where
  "ctxErr_string context_Canceled = ''context canceled''"
| "ctxErr_string context_DeadlineExceeded = ''context deadline exceeded''"

definition fmt_error :: "env \<Rightarrow> error \<Rightarrow> string" where
  "fmt_error ev err = (case err of None \<Rightarrow> ''<nil>'' | Some e \<Rightarrow> Error_string ev e)"

definition errContextCanceled :: "env \<Rightarrow> ctxErr \<Rightarrow> error \<Rightarrow> Error" where
  "errContextCanceled ev ctx_err lastErr =
     (if ctx_err = context_DeadlineExceeded
      then spannerErrorf DeadlineExceeded
             (ctxErr_string ctx_err @ '', lastErr is <'' @ fmt_error ev lastErr @ ''>'')
      else spannerErrorf Canceled
             (ctxErr_string ctx_err @ '', lastErr is <'' @ fmt_error ev lastErr @ ''>''))"

text \<open>\<^verbatim>\<open>extractRetryDelay\<close>: \<open>None\<close> is the source's \<^verbatim>\<open>(0, false)\<close>.\<close>

definition extractRetryDelay :: "env \<Rightarrow> Error \<Rightarrow> int option" where
  "extractRetryDelay ev err =
     (case errTrailers err of
        None \<Rightarrow> None
      | Some trs \<Rightarrow>
          (case trs retryInfoKey of
             None \<Rightarrow> None
           | Some elem \<Rightarrow>
               if length elem \<le> 0 then None else decodeRetryInfo ev (elem ! 0)))"

text \<open>
  One pass of the loop of \<^verbatim>\<open>runRetryableNoWrap\<close> meets the outside world three times: the
  select on \<^verbatim>\<open>ctx.Done()\<close> at its top, the call of \<^verbatim>\<open>f\<close>, and the select of the backoff
  sleep. An \<open>attempt\<close> records what the world answers; the loop runs over a list of them.
\<close>

record attempt =
  doneAtTop :: bool
  fResult :: error
  doneInSleep :: bool

text \<open>
  What a run leaves: the error returned (\<open>None\<close> while the loop has not returned within the
  attempts given), the results of the calls of \<^verbatim>\<open>f\<close> in order, and the durations handed to
  \<^verbatim>\<open>time.After\<close> in order.
\<close>

record run =
  returned :: "error option"
  calls :: "error list"
  sleeps :: "int list"

fun runRetryableLoop :: "env \<Rightarrow> ctxErr \<Rightarrow> error \<Rightarrow> nat \<Rightarrow> attempt list \<Rightarrow> run" where
  "runRetryableLoop ev ctx_err funcErr retryCount [] =
     \<lparr>returned = None, calls = [], sleeps = []\<rparr>"
| "runRetryableLoop ev ctx_err funcErr retryCount (a # as) =
     (if doneAtTop a
      then \<lparr>returned = Some (Some (errContextCanceled ev ctx_err funcErr)),
             calls = [], sleeps = []\<rparr>
      else
        (case fResult a of
           None \<Rightarrow> \<lparr>returned = Some None, calls = [None], sleeps = []\<rparr>
         | Some e \<Rightarrow>
             if isRetryable (Some e)
             then
               (let b = (case extractRetryDelay ev e of
                           Some d \<Rightarrow> d
                         | None \<Rightarrow> Delay ev retryCount)
                in if doneInSleep a
                   then \<lparr>returned = Some (Some (errContextCanceled ev ctx_err (Some e))),
                          calls = [Some e], sleeps = [b]\<rparr>
                   else
                     (let r = runRetryableLoop ev ctx_err (Some e) (retryCount + 1) as
                      in r\<lparr>calls := Some e # calls r, sleeps := b # sleeps r\<rparr>))
             else \<lparr>returned = Some (Some e), calls = [Some e], sleeps = []\<rparr>))"

definition runRetryableNoWrap :: "env \<Rightarrow> ctxErr \<Rightarrow> attempt list \<Rightarrow> run" where
  "runRetryableNoWrap ev ctx_err as = runRetryableLoop ev ctx_err None 0 as"

definition runRetryable :: "env \<Rightarrow> ctxErr \<Rightarrow> attempt list \<Rightarrow> run" where
  "runRetryable ev ctx_err as =
     (let r = runRetryableNoWrap ev ctx_err as
      in r\<lparr>returned := map_option toSpannerError (returned r)\<rparr>)"

text \<open>
  An attempt after which the loop goes round again: the context is not done at either
  select and \<^verbatim>\<open>f\<close> fails with a retryable error. \<open>backoffs\<close> are the sleeps the source
  computes for a row of them, the first under attempt count \<open>n\<close>.
\<close>

definition retried :: "attempt \<Rightarrow> bool" where
  "retried a = (\<not> doneAtTop a \<and> isRetryable (fResult a) \<and> \<not> doneInSleep a)"

definition backoff_for :: "env \<Rightarrow> nat \<Rightarrow> error \<Rightarrow> int" where
  "backoff_for ev n err =
     (case err of
        None \<Rightarrow> Delay ev n
      | Some e \<Rightarrow> (case extractRetryDelay ev e of Some d \<Rightarrow> d | None \<Rightarrow> Delay ev n))"

fun backoffs :: "env \<Rightarrow> nat \<Rightarrow> attempt list \<Rightarrow> int list" where
  "backoffs ev n [] = []"
| "backoffs ev n (a # as) = backoff_for ev n (fResult a) # backoffs ev (Suc n) as"

definition lastErr_of :: "error \<Rightarrow> attempt list \<Rightarrow> error" where
  "lastErr_of funcErr pre = (if pre = [] then funcErr else fResult (last pre))"

section \<open>Sessions, the session pool and the health-check queue (session.go)\<close>

text \<open>
  Pointers are names: a \<^verbatim>\<open>*session\<close> is an \<open>sref\<close>, a \<^verbatim>\<open>*list.Element\<close> an \<open>eref\<close>, a channel
  a \<open>chan\<close>. The objects live in the \<open>world\<close> below. A \<^verbatim>\<open>time.Time\<close> is a number of
  nanoseconds counted from Go's zero time, a \<^verbatim>\<open>time.Duration\<close> a number of nanoseconds,
  both unbounded: the 64-bit range of a duration, some 292 years, is not modelled. The
  counters of the pool are unsigned 64-bit words and wrap around as Go's do.
  The mutexes are left out: every function below is one critical section or a sequence of
  them, run without interleaving.

  The fields of \<^verbatim>\<open>session\<close>: \<open>sid\<close> is the source's \<^verbatim>\<open>id\<close>, and \<open>idleElem\<close> the source's
  \<^verbatim>\<open>idleList\<close> (the link into an idle list), renamed since the pool has a field of that
  name too. \<^verbatim>\<open>client\<close>, \<^verbatim>\<open>pool\<close>, \<^verbatim>\<open>createTime\<close> and \<^verbatim>\<open>md\<close> are set once and never read by the
  functions modelled here. A \<^verbatim>\<open>transactionID\<close> is a byte string, \<open>None\<close> for \<^verbatim>\<open>nil\<close>.
\<close>

type_synonym sref = nat
type_synonym eref = nat
type_synonym chan = nat

record session =
  sid :: string
  valid :: bool
  hcIndex :: int
  idleElem :: "eref option"
  nextCheck :: int
  checkingHealth :: bool
  tx :: "string option"

text \<open>
  \<^verbatim>\<open>SessionPoolConfig\<close>, its four unsigned 64-bit bounds. \<open>pvalid\<close> is the \<^verbatim>\<open>valid\<close> flag of
  the pool. A \<^verbatim>\<open>list.List\<close> of sessions is the list of its elements, front first, each
  with the session it holds.
\<close>

record SessionPoolConfig =
  MaxOpened :: "64 word"
  MinOpened :: "64 word"
  MaxIdle :: "64 word"
  MaxBurst :: "64 word"

record sessionPool =
  pvalid :: bool
  idleList :: "(eref \<times> sref) list"
  idleWriteList :: "(eref \<times> sref) list"
  mayGetSession :: chan
  numOpened :: "64 word"
  createReqs :: "64 word"
  prepareReqs :: "64 word"
  config :: SessionPoolConfig

text \<open>The RPCs the pool issues, in the order it issues them.\<close>

datatype rpc =
    GetSession string
  | DeleteSession string
  | CreateSession
  | BeginTransaction string

text \<open>
  The world: the session objects, the pool, the queue \<^verbatim>\<open>hc.queue.sessions\<close> and the interval
  of the health checker, the channels closed so far, the next fresh channel, list element
  and session, the RPCs issued, and the values recorded for the gauge \<^verbatim>\<open>OpenSessionCount\<close>.
\<close>

record world =
  sessions :: "sref \<Rightarrow> session"
  pool :: sessionPool
  queue :: "sref list"
  interval :: int
  closedChans :: "chan set"
  nextChan :: chan
  nextElem :: eref
  nextSess :: sref
  rpcs :: "rpc list"
  openSessionCount :: "int list"

subsection \<open>Accessors of a session\<close>

definition isValid :: "sref \<Rightarrow> world \<Rightarrow> bool" where
  "isValid s w = valid (sessions w s)"

definition isWritePrepared :: "sref \<Rightarrow> world \<Rightarrow> bool" where
  "isWritePrepared s w = (tx (sessions w s) \<noteq> None)"

definition getID :: "sref \<Rightarrow> world \<Rightarrow> string" where
  "getID s w = sid (sessions w s)"

definition getHcIndex :: "sref \<Rightarrow> world \<Rightarrow> int" where
  "getHcIndex s w = hcIndex (sessions w s)"

definition getIdleList :: "sref \<Rightarrow> world \<Rightarrow> eref option" where
  "getIdleList s w = idleElem (sessions w s)"

definition getNextCheck :: "sref \<Rightarrow> world \<Rightarrow> int" where
  "getNextCheck s w = nextCheck (sessions w s)"

text \<open>The setters return the old value beside the new world, as the source does.\<close>

definition setHcIndex :: "sref \<Rightarrow> int \<Rightarrow> world \<Rightarrow> int \<times> world" where
  "setHcIndex s i w =
     (hcIndex (sessions w s),
      w\<lparr>sessions := (sessions w)(s := (sessions w s)\<lparr>hcIndex := i\<rparr>)\<rparr>)"

definition setIdleList :: "sref \<Rightarrow> eref option \<Rightarrow> world \<Rightarrow> eref option \<times> world" where
  "setIdleList s le w =
     (idleElem (sessions w s),
      w\<lparr>sessions := (sessions w)(s := (sessions w s)\<lparr>idleElem := le\<rparr>)\<rparr>)"

definition invalidate :: "sref \<Rightarrow> world \<Rightarrow> bool \<times> world" where
  "invalidate s w =
     (valid (sessions w s),
      w\<lparr>sessions := (sessions w)(s := (sessions w s)\<lparr>valid := False\<rparr>)\<rparr>)"

definition setNextCheck :: "sref \<Rightarrow> int \<Rightarrow> world \<Rightarrow> world" where
  "setNextCheck s t w = w\<lparr>sessions := (sessions w)(s := (sessions w s)\<lparr>nextCheck := t\<rparr>)\<rparr>"

definition setTransactionID :: "sref \<Rightarrow> string option \<Rightarrow> world \<Rightarrow> world" where
  "setTransactionID s t w = w\<lparr>sessions := (sessions w)(s := (sessions w s)\<lparr>tx := t\<rparr>)\<rparr>"

subsection \<open>The idle lists (container/list) and the wake channel\<close>

text \<open>
  \<^verbatim>\<open>l.PushBack(v)\<close> makes a new element; \<^verbatim>\<open>l.Remove(e)\<close> takes \<^verbatim>\<open>e\<close> out when it is an element of
  \<^verbatim>\<open>l\<close> and does nothing otherwise.
\<close>

definition list_Len :: "(eref \<times> sref) list \<Rightarrow> nat" where
  "list_Len l = length l"

definition list_Remove :: "(eref \<times> sref) list \<Rightarrow> eref \<Rightarrow> (eref \<times> sref) list" where
  "list_Remove l e = filter (\<lambda>x. fst x \<noteq> e) l"

text \<open>
  \<^verbatim>\<open>close(p.mayGetSession); p.mayGetSession = make(chan struct{})\<close>, the broadcast to the
  waiters.
\<close>

definition broadcast :: "world \<Rightarrow> world" where
  "broadcast w =
     w\<lparr>closedChans := insert (mayGetSession (pool w)) (closedChans w),
       pool := (pool w)\<lparr>mayGetSession := nextChan w\<rparr>,
       nextChan := Suc (nextChan w)\<rparr>"

text \<open>\<^verbatim>\<open>recordStat(ctx, OpenSessionCount, int64(p.numOpened))\<close>.\<close>

definition recordStat :: "world \<Rightarrow> world" where
  "recordStat w = w\<lparr>openSessionCount := openSessionCount w @ [sint (numOpened (pool w))]\<rparr>"

subsection \<open>\<^verbatim>\<open>sessionPool.recycle\<close> and \<^verbatim>\<open>sessionPool.remove\<close>\<close>

definition sessionPool_recycle :: "sref \<Rightarrow> world \<Rightarrow> bool \<times> world" where
  "sessionPool_recycle s w =
     (if \<not> isValid s w \<or> \<not> pvalid (pool w) then (False, w)
      else
        (let e = nextElem w;
             w1 = (if isWritePrepared s w
                   then w\<lparr>pool := (pool w)\<lparr>idleWriteList := idleWriteList (pool w) @ [(e, s)]\<rparr>,
                          nextElem := Suc e\<rparr>
                   else w\<lparr>pool := (pool w)\<lparr>idleList := idleList (pool w) @ [(e, s)]\<rparr>,
                          nextElem := Suc e\<rparr>);
             w2 = snd (setIdleList s (Some e) w1)
         in (True, broadcast w2)))"

definition sessionPool_remove :: "sref \<Rightarrow> bool \<Rightarrow> world \<Rightarrow> bool \<times> world" where
  "sessionPool_remove s isExpire w =
     (if isExpire
         \<and> (numOpened (pool w) \<le> MinOpened (config (pool w)) \<or> getIdleList s w = None)
      then (False, w)
      else
        (let (ol, w1) = setIdleList s None w;
             w2 = (case ol of
                     None \<Rightarrow> w1
                   | Some e \<Rightarrow>
                       w1\<lparr>pool := (pool w1)
                            \<lparr>idleList := list_Remove (idleList (pool w1)) e,
                             idleWriteList := list_Remove (idleWriteList (pool w1)) e\<rparr>\<rparr>);
             (ov, w3) = invalidate s w2
         in if ov
            then (True,
                  broadcast
                    (recordStat (w3\<lparr>pool := (pool w3)\<lparr>numOpened := numOpened (pool w3) - 1\<rparr>\<rparr>)))
            else (False, w3)))"

subsection \<open>The health-check queue: \<^verbatim>\<open>hcHeap\<close> under container/heap\<close>

text \<open>
  An index outside the slice makes Go panic: \<open>None\<close>. Indices are Go \<^verbatim>\<open>int\<close>s, and \<^verbatim>\<open>/\<close>
  on them truncates towards zero.
\<close>

definition go_div :: "int \<Rightarrow> int \<Rightarrow> int" where
  "go_div a b = sgn a * sgn b * (\<bar>a\<bar> div \<bar>b\<bar>)"

definition hcHeap_Len :: "world \<Rightarrow> int" where
  "hcHeap_Len w = int (length (queue w))"

definition in_queue :: "int \<Rightarrow> world \<Rightarrow> bool" where
  "in_queue i w = (0 \<le> i \<and> i < hcHeap_Len w)"

definition hcHeap_Less :: "int \<Rightarrow> int \<Rightarrow> world \<Rightarrow> bool option" where
  "hcHeap_Less i j w =
     (if in_queue i w \<and> in_queue j w
      then Some (getNextCheck (queue w ! nat i) w < getNextCheck (queue w ! nat j) w)
      else None)"

definition hcHeap_Swap :: "int \<Rightarrow> int \<Rightarrow> world \<Rightarrow> world option" where
  "hcHeap_Swap i j w =
     (if in_queue i w \<and> in_queue j w
      then
        (let si = queue w ! nat i;
             sj = queue w ! nat j;
             w1 = w\<lparr>queue := (queue w)[nat i := sj, nat j := si]\<rparr>;
             w2 = snd (setHcIndex (queue w1 ! nat i) i w1);
             w3 = snd (setHcIndex (queue w2 ! nat j) j w2)
         in Some w3)
      else None)"

definition hcHeap_Push :: "sref \<Rightarrow> world \<Rightarrow> world" where
  "hcHeap_Push ns w =
     (let w1 = snd (setHcIndex ns (hcHeap_Len w) w)
      in w1\<lparr>queue := queue w1 @ [ns]\<rparr>)"

definition hcHeap_Pop :: "world \<Rightarrow> (sref \<times> world) option" where
  "hcHeap_Pop w =
     (if queue w = [] then None
      else
        (let s = last (queue w);
             w1 = w\<lparr>queue := butlast (queue w)\<rparr>;
             w2 = snd (setHcIndex s (- 1) w1)
         in Some (s, w2)))"

text \<open>
  \<^verbatim>\<open>up\<close> and \<^verbatim>\<open>down\<close> of the Go library's container/heap, over \<^verbatim>\<open>hcHeap\<close>. \<open>heap_down_loop\<close>
  is the loop of \<^verbatim>\<open>down\<close> and returns the index it stops at.
\<close>

function heap_up :: "int \<Rightarrow> world \<Rightarrow> world option" where
  "heap_up j w =
     (let i = go_div (j - 1) 2
      in if i = j then Some w
         else
           (case hcHeap_Less j i w of
              None \<Rightarrow> None
            | Some b \<Rightarrow>
                if \<not> b then Some w
                else
                  (case hcHeap_Swap i j w of
                     None \<Rightarrow> None
                   | Some w' \<Rightarrow> heap_up i w')))"
  by pat_completeness auto
termination
proof (relation "measure (\<lambda>(j, w). nat j)")
  show "wf (measure (\<lambda>(j, w). nat j))" by simp
next
  fix j :: int and w x x2 b w'
  assume i: "x = go_div (j - 1) 2" "x \<noteq> j" and l: "hcHeap_Less j x w = Some x2"
  from l have "0 \<le> j" by (simp add: hcHeap_Less_def in_queue_def split: if_splits)
  with i have "0 < j" "x < j"
    by (auto simp: go_div_def sgn_if split: if_splits)
  then show "((x, w'), (j, w)) \<in> measure (\<lambda>(j, w). nat j)" by simp
qed

function heap_down_loop :: "int \<Rightarrow> int \<Rightarrow> world \<Rightarrow> (int \<times> world) option" where
  "heap_down_loop i n w =
     (let j1 = 2 * i + 1
      in if j1 \<ge> n \<or> j1 < 0 then Some (i, w)
         else
           (case (if j1 + 1 < n then hcHeap_Less (j1 + 1) j1 w else Some False) of
              None \<Rightarrow> None
            | Some r \<Rightarrow>
                (let j = (if r then j1 + 1 else j1)
                 in case hcHeap_Less j i w of
                      None \<Rightarrow> None
                    | Some b \<Rightarrow>
                        if \<not> b then Some (i, w)
                        else
                          (case hcHeap_Swap i j w of
                             None \<Rightarrow> None
                           | Some w' \<Rightarrow> heap_down_loop j n w'))))"
  by pat_completeness auto
termination
  by (relation "measure (\<lambda>(i, n, w). nat (n - i))") (auto split: if_splits)

text \<open>Both loops are unfolded by hand, one pass at a time.\<close>

declare heap_up.simps [simp del] heap_down_loop.simps [simp del]

definition heap_down :: "int \<Rightarrow> int \<Rightarrow> world \<Rightarrow> (bool \<times> world) option" where
  "heap_down i0 n w = map_option (\<lambda>(i, w'). (i > i0, w')) (heap_down_loop i0 n w)"

definition heap_Push :: "sref \<Rightarrow> world \<Rightarrow> world option" where
  "heap_Push x w = (let w1 = hcHeap_Push x w in heap_up (hcHeap_Len w1 - 1) w1)"

definition heap_Pop :: "world \<Rightarrow> (sref \<times> world) option" where
  "heap_Pop w =
     (let n = hcHeap_Len w - 1
      in case hcHeap_Swap 0 n w of
           None \<Rightarrow> None
         | Some w1 \<Rightarrow>
             (case heap_down 0 n w1 of
                None \<Rightarrow> None
              | Some (_, w2) \<Rightarrow> hcHeap_Pop w2))"

definition heap_Fix :: "int \<Rightarrow> world \<Rightarrow> world option" where
  "heap_Fix i w =
     (case heap_down i (hcHeap_Len w) w of
        None \<Rightarrow> None
      | Some (moved, w1) \<Rightarrow> if \<not> moved then heap_up i w1 else Some w1)"

definition heap_Remove :: "int \<Rightarrow> world \<Rightarrow> (sref \<times> world) option" where
  "heap_Remove i w =
     (let n = hcHeap_Len w - 1
      in if n \<noteq> i
         then
           (case hcHeap_Swap i n w of
              None \<Rightarrow> None
            | Some w1 \<Rightarrow>
                (case heap_down i n w1 of
                   None \<Rightarrow> None
                 | Some (moved, w2) \<Rightarrow>
                     if \<not> moved
                     then (case heap_up i w2 of None \<Rightarrow> None | Some w3 \<Rightarrow> hcHeap_Pop w3)
                     else hcHeap_Pop w2))
         else hcHeap_Pop w)"

subsection \<open>The health checker's bookkeeping\<close>

text \<open>
  \<open>now\<close> is what \<^verbatim>\<open>time.Now()\<close> returns and \<open>r\<close> what \<^verbatim>\<open>rand.Int63n(int64(hc.interval))\<close>
  returns; \<^verbatim>\<open>rand.Int63n\<close> panics on an argument that is not positive.
\<close>

definition scheduledHCLocked :: "sref \<Rightarrow> int \<Rightarrow> int \<Rightarrow> world \<Rightarrow> world option" where
  "scheduledHCLocked s now r w =
     (if interval w \<le> 0 then None
      else
        (let nsFromNow = r + go_div (interval w) 2;
             w1 = setNextCheck s (now + nsFromNow) w;
             hi = getHcIndex s w1
         in if hi \<noteq> - 1 then heap_Fix hi w1 else Some w1))"

definition scheduledHC :: "sref \<Rightarrow> int \<Rightarrow> int \<Rightarrow> world \<Rightarrow> world option" where
  "scheduledHC s now r w = scheduledHCLocked s now r w"

definition register :: "sref \<Rightarrow> int \<Rightarrow> int \<Rightarrow> world \<Rightarrow> world option" where
  "register s now r w =
     (case scheduledHCLocked s now r w of
        None \<Rightarrow> None
      | Some w1 \<Rightarrow> heap_Push s w1)"

definition unregister :: "sref \<Rightarrow> world \<Rightarrow> world option" where
  "unregister s w =
     (let (oi, w1) = setHcIndex s (- 1) w
      in if oi \<ge> 0 then map_option snd (heap_Remove oi w1) else Some w1)"

subsection \<open>\<^verbatim>\<open>session.recycle\<close>, \<^verbatim>\<open>session.destroy\<close> and the session handle\<close>

text \<open>
  \<^verbatim>\<open>session.delete\<close> issues the DeleteSession RPC; its error is logged and dropped.
\<close>

definition session_delete :: "sref \<Rightarrow> world \<Rightarrow> world" where
  "session_delete s w = w\<lparr>rpcs := rpcs w @ [DeleteSession (getID s w)]\<rparr>"

definition session_destroy :: "sref \<Rightarrow> bool \<Rightarrow> world \<Rightarrow> (bool \<times> world) option" where
  "session_destroy s isExpire w =
     (case sessionPool_remove s isExpire w of
        (False, w1) \<Rightarrow> Some (False, w1)
      | (True, w1) \<Rightarrow>
          (case unregister s w1 of
             None \<Rightarrow> None
           | Some w2 \<Rightarrow> Some (True, session_delete s w2)))"

definition session_recycle :: "sref \<Rightarrow> world \<Rightarrow> world option" where
  "session_recycle s w =
     (let w1 = setTransactionID s None w;
          (ok, w2) = sessionPool_recycle s w1
      in if \<not> ok then map_option snd (session_destroy s False w2) else Some w2)"

text \<open>
  \<^verbatim>\<open>sessionHandle\<close>: \<open>sh_session\<close> is its field \<^verbatim>\<open>session\<close>, \<open>None\<close> for \<^verbatim>\<open>nil\<close>. The methods
  return the handle as they leave it.
\<close>

record sessionHandle =
  sh_session :: "sref option"

definition sessionHandle_recycle ::
  "sessionHandle \<Rightarrow> world \<Rightarrow> (sessionHandle \<times> world) option" where
  "sessionHandle_recycle sh w =
     (case sh_session sh of
        None \<Rightarrow> Some (sh, w)
      | Some s \<Rightarrow>
          (case session_recycle s w of
             None \<Rightarrow> None
           | Some w1 \<Rightarrow> Some (sh\<lparr>sh_session := None\<rparr>, w1)))"

definition sessionHandle_getID :: "sessionHandle \<Rightarrow> world \<Rightarrow> string" where
  "sessionHandle_getID sh w =
     (case sh_session sh of None \<Rightarrow> [] | Some s \<Rightarrow> getID s w)"

definition sessionHandle_getTransactionID :: "sessionHandle \<Rightarrow> world \<Rightarrow> string option" where
  "sessionHandle_getTransactionID sh w =
     (case sh_session sh of None \<Rightarrow> None | Some s \<Rightarrow> tx (sessions w s))"

definition sessionHandle_destroy ::
  "sessionHandle \<Rightarrow> world \<Rightarrow> (sessionHandle \<times> world) option" where
  "sessionHandle_destroy sh w =
     (let s = sh_session sh;
          sh1 = sh\<lparr>sh_session := None\<rparr>
      in case s of
           None \<Rightarrow> Some (sh1, w)
         | Some s' \<Rightarrow>
             (case session_destroy s' False w of
                None \<Rightarrow> None
              | Some (_, w1) \<Rightarrow> Some (sh1, w1)))"

subsection \<open>Creating sessions and taking creation budget\<close>

text \<open>
  What the outside world answers during one pass of a loop of the pool: the two readings of
  \<^verbatim>\<open>time.Now()\<close> (in \<^verbatim>\<open>isHealthy\<close> and in \<^verbatim>\<open>scheduledHCLocked\<close>), the value of
  \<^verbatim>\<open>rand.Int63n\<close>, the result of the ping (GetSession), whether \<^verbatim>\<open>ctx.Done()\<close> wins the
  select of a blocked acquisition, the error of \<^verbatim>\<open>p.getRPCClient()\<close>, the result of the
  CreateSession RPC (an error or the name of the session), the result of \<^verbatim>\<open>beginTransaction\<close>
  (an error or a transaction id), what \<^verbatim>\<open>p.shouldPrepareWrite()\<close> computes in floating point,
  and whether \<^verbatim>\<open>ctx.Err()\<close> is set at the top of a pass of the maintainer's loops.
\<close>

record answers =
  nowHealthy :: int
  nowScheduled :: int
  randInt63n :: int
  ping :: error
  ctxDone :: bool
  getRPCClient :: error
  CreateSessionRPC :: "Error + string"
  beginTransaction :: "Error + string"
  shouldPrepareWrite :: bool
  ctxErrSet :: bool

definition errInvalidSessionPool :: Error where
  "errInvalidSessionPool = spannerErrorf InvalidArgument ''invalid session pool''"

definition errGetSessionTimeout :: Error where
  "errGetSessionTimeout =
     spannerErrorf Canceled ''timeout / context canceled during getting session''"

text \<open>
  The guard of \<^verbatim>\<open>take\<close> and \<^verbatim>\<open>takeWriteSession\<close> before they take budget, and the taking
  itself: \<^verbatim>\<open>p.numOpened++; recordStat(...); p.createReqs++\<close>.
\<close>

definition atCapacity :: "world \<Rightarrow> bool" where
  "atCapacity w =
     ((MaxOpened (config (pool w)) > 0 \<and> numOpened (pool w) \<ge> MaxOpened (config (pool w)))
      \<or> (MaxBurst (config (pool w)) > 0 \<and> createReqs (pool w) \<ge> MaxBurst (config (pool w))))"

definition takeBudget :: "world \<Rightarrow> world" where
  "takeBudget w =
     (let w1 = recordStat (w\<lparr>pool := (pool w)\<lparr>numOpened := numOpened (pool w) + 1\<rparr>\<rparr>)
      in w1\<lparr>pool := (pool w1)\<lparr>createReqs := createReqs (pool w1) + 1\<rparr>\<rparr>)"

text \<open>
  The closure \<^verbatim>\<open>doneCreate\<close> of \<^verbatim>\<open>sessionPool.createSession\<close>, and \<^verbatim>\<open>createSession\<close>: a new
  session is the literal \<^verbatim>\<open>&session{valid: true, client: sc, id: sid.Name, createTime:
  time.Now(), md: md}\<close>, every other field at Go's zero value. The package-level
  \<^verbatim>\<open>createSession\<close> passes the error of the RPC through \<^verbatim>\<open>toSpannerError\<close>, which leaves the
  errors of this model as they are.
\<close>

definition doneCreate :: "bool \<Rightarrow> world \<Rightarrow> world" where
  "doneCreate done w =
     (let w1 = (if \<not> done
                then recordStat (w\<lparr>pool := (pool w)\<lparr>numOpened := numOpened (pool w) - 1\<rparr>\<rparr>)
                else w);
          w2 = w1\<lparr>pool := (pool w1)\<lparr>createReqs := createReqs (pool w1) - 1\<rparr>\<rparr>
      in broadcast w2)"

definition new_session :: "string \<Rightarrow> session" where
  "new_session name =
     \<lparr>sid = name, valid = True, hcIndex = 0, idleElem = None, nextCheck = 0,
      checkingHealth = False, tx = None\<rparr>"

definition createSession :: "answers \<Rightarrow> world \<Rightarrow> ((Error + sref) \<times> world) option" where
  "createSession a w =
     (case getRPCClient a of
        Some err \<Rightarrow> Some (Inl err, doneCreate False w)
      | None \<Rightarrow>
          (let w1 = w\<lparr>rpcs := rpcs w @ [CreateSession]\<rparr>
           in case CreateSessionRPC a of
                Inl e \<Rightarrow> Some (Inl e, doneCreate False w1)
              | Inr name \<Rightarrow>
                  (let s = nextSess w1;
                       w2 = w1\<lparr>sessions := (sessions w1)(s := new_session name),
                              nextSess := Suc s\<rparr>
                   in case register s (nowScheduled a) (randInt63n a) w2 of
                        None \<Rightarrow> None
                      | Some w3 \<Rightarrow> Some (Inr s, doneCreate True w3))))"

subsection \<open>\<^verbatim>\<open>ping\<close>, \<^verbatim>\<open>prepareForWrite\<close> and \<^verbatim>\<open>isHealthy\<close>\<close>

definition session_ping :: "answers \<Rightarrow> sref \<Rightarrow> world \<Rightarrow> error \<times> world" where
  "session_ping a s w = (ping a, w\<lparr>rpcs := rpcs w @ [GetSession (getID s w)]\<rparr>)"

definition prepareForWrite :: "answers \<Rightarrow> sref \<Rightarrow> world \<Rightarrow> error \<times> world" where
  "prepareForWrite a s w =
     (if isWritePrepared s w then (None, w)
      else
        (let w1 = w\<lparr>rpcs := rpcs w @ [BeginTransaction (getID s w)]\<rparr>
         in case beginTransaction a of
              Inl err \<Rightarrow> (Some err, w1)
            | Inr t \<Rightarrow> (None, setTransactionID s (Some t) w1)))"

definition isHealthy :: "answers \<Rightarrow> sref \<Rightarrow> world \<Rightarrow> (bool \<times> world) option" where
  "isHealthy a s w =
     (if getNextCheck s w + 2 * interval w < nowHealthy a
      then
        (let (err, w1) = session_ping a s w
         in if shouldDropSession err
            then (case session_destroy s False w1 of
                    None \<Rightarrow> None
                  | Some (_, w2) \<Rightarrow> Some (False, w2))
            else (case scheduledHC s (nowScheduled a) (randInt63n a) w1 of
                    None \<Rightarrow> None
                  | Some w2 \<Rightarrow> Some (True, w2)))
      else Some (True, w))"

subsection \<open>\<^verbatim>\<open>take\<close> and \<^verbatim>\<open>takeWriteSession\<close>\<close>

text \<open>
  One pass of the \<^verbatim>\<open>for\<close> loop either returns a handle, returns an error, or goes round
  again (\<^verbatim>\<open>continue\<close>). \<open>popFront\<close> is \<^verbatim>\<open>l.Remove(l.Front()).(*session)\<close> on a list that is
  not empty.
\<close>

datatype outcome = Handle sessionHandle | Failed error | Continue

definition popFront :: "(eref \<times> sref) list \<Rightarrow> sref \<times> (eref \<times> sref) list" where
  "popFront l = (snd (hd l), list_Remove l (fst (hd l)))"

definition take_pop :: "world \<Rightarrow> sref option \<times> world" where
  "take_pop w =
     (if list_Len (idleList (pool w)) > 0
      then (let (s, l) = popFront (idleList (pool w))
            in (Some s, w\<lparr>pool := (pool w)\<lparr>idleList := l\<rparr>\<rparr>))
      else if list_Len (idleWriteList (pool w)) > 0
      then (let (s, l) = popFront (idleWriteList (pool w))
            in (Some s, w\<lparr>pool := (pool w)\<lparr>idleWriteList := l\<rparr>\<rparr>))
      else (None, w))"

definition takeWrite_pop :: "world \<Rightarrow> sref option \<times> world" where
  "takeWrite_pop w =
     (if list_Len (idleWriteList (pool w)) > 0
      then (let (s, l) = popFront (idleWriteList (pool w))
            in (Some s, w\<lparr>pool := (pool w)\<lparr>idleWriteList := l\<rparr>\<rparr>))
      else if list_Len (idleList (pool w)) > 0
      then (let (s, l) = popFront (idleList (pool w))
            in (Some s, w\<lparr>pool := (pool w)\<lparr>idleList := l\<rparr>\<rparr>))
      else (None, w))"

text \<open>
  The part of a pass that both functions share once no idle session was found: block at
  capacity, or take budget and create a session. \<open>Inl\<close> is the outcome of a pass that ends
  here, \<open>Inr\<close> the session created.
\<close>

definition create_or_wait :: "answers \<Rightarrow> world \<Rightarrow> ((outcome + sref) \<times> world) option" where
  "create_or_wait a w =
     (if atCapacity w
      then (if ctxDone a then Some (Inl (Failed (Some errGetSessionTimeout)), w)
            else Some (Inl Continue, w))
      else
        (case createSession a (takeBudget w) of
           None \<Rightarrow> None
         | Some (Inl err, w1) \<Rightarrow> Some (Inl (Failed (toSpannerError (Some err))), w1)
         | Some (Inr s, w1) \<Rightarrow> Some (Inr s, w1)))"

definition take_pass :: "answers \<Rightarrow> world \<Rightarrow> (outcome \<times> world) option" where
  "take_pass a w =
     (if \<not> pvalid (pool w) then Some (Failed (Some errInvalidSessionPool), w)
      else
        (case take_pop w of
           (Some s, w1) \<Rightarrow>
             (let w2 = snd (setIdleList s None w1)
              in case isHealthy a s w2 of
                   None \<Rightarrow> None
                 | Some (healthy, w3) \<Rightarrow>
                     if \<not> healthy then Some (Continue, w3)
                     else Some (Handle \<lparr>sh_session = Some s\<rparr>, w3))
         | (None, w1) \<Rightarrow>
             (case create_or_wait a w1 of
                None \<Rightarrow> None
              | Some (Inl out, w2) \<Rightarrow> Some (out, w2)
              | Some (Inr s, w2) \<Rightarrow> Some (Handle \<lparr>sh_session = Some s\<rparr>, w2))))"

text \<open>The end of a pass of \<^verbatim>\<open>takeWriteSession\<close>, once it holds a session.\<close>

definition takeWrite_prepare :: "answers \<Rightarrow> sref \<Rightarrow> world \<Rightarrow> (outcome \<times> world) option" where
  "takeWrite_prepare a s w =
     (if \<not> isWritePrepared s w
      then
        (case prepareForWrite a s w of
           (Some err, w1) \<Rightarrow>
             (case session_recycle s w1 of
                None \<Rightarrow> None
              | Some w2 \<Rightarrow> Some (Failed (toSpannerError (Some err)), w2))
         | (None, w1) \<Rightarrow> Some (Handle \<lparr>sh_session = Some s\<rparr>, w1))
      else Some (Handle \<lparr>sh_session = Some s\<rparr>, w))"

definition takeWriteSession_pass :: "answers \<Rightarrow> world \<Rightarrow> (outcome \<times> world) option" where
  "takeWriteSession_pass a w =
     (if \<not> pvalid (pool w) then Some (Failed (Some errInvalidSessionPool), w)
      else
        (case takeWrite_pop w of
           (Some s, w1) \<Rightarrow>
             (let w2 = snd (setIdleList s None w1)
              in case isHealthy a s w2 of
                   None \<Rightarrow> None
                 | Some (healthy, w3) \<Rightarrow>
                     if \<not> healthy then Some (Continue, w3)
                     else takeWrite_prepare a s w3)
         | (None, w1) \<Rightarrow>
             (case create_or_wait a w1 of
                None \<Rightarrow> None
              | Some (Inl out, w2) \<Rightarrow> Some (out, w2)
              | Some (Inr s, w2) \<Rightarrow> takeWrite_prepare a s w2)))"

text \<open>
  The loops, over the answers of the passes in order. \<open>Continue\<close> as a result says that the
  loop has not returned within the answers given.
\<close>

fun sessionPool_take :: "answers list \<Rightarrow> world \<Rightarrow> (outcome \<times> world) option" where
  "sessionPool_take [] w = Some (Continue, w)"
| "sessionPool_take (a # as) w =
     (case take_pass a w of
        None \<Rightarrow> None
      | Some (Continue, w1) \<Rightarrow> sessionPool_take as w1
      | Some (out, w1) \<Rightarrow> Some (out, w1))"

fun sessionPool_takeWriteSession ::
  "answers list \<Rightarrow> world \<Rightarrow> (outcome \<times> world) option" where
  "sessionPool_takeWriteSession [] w = Some (Continue, w)"
| "sessionPool_takeWriteSession (a # as) w =
     (case takeWriteSession_pass a w of
        None \<Rightarrow> None
      | Some (Continue, w1) \<Rightarrow> sessionPool_takeWriteSession as w1
      | Some (out, w1) \<Rightarrow> Some (out, w1))"

subsection \<open>Configuration and construction of the pool\<close>

text \<open>
  \<^verbatim>\<open>SessionPoolConfig.validate\<close>, true when it returns \<^verbatim>\<open>nil\<close>; \<open>rpcGetter\<close> says whether
  \<^verbatim>\<open>getRPCClient\<close> is set. \<^verbatim>\<open>newSessionPool\<close> returns the error of \<^verbatim>\<open>validate\<close> (\<open>None\<close>
  here) or starts from an empty pool; \<open>hcInterval\<close> is the configured
  \<^verbatim>\<open>HealthCheckInterval\<close>, replaced by five minutes when zero.
\<close>

definition validate :: "bool \<Rightarrow> SessionPoolConfig \<Rightarrow> bool" where
  "validate rpcGetter spc =
     (if \<not> rpcGetter then False
      else if MinOpened spc > MaxOpened spc \<and> MaxOpened spc > 0 then False
      else True)"

definition newSessionPool :: "bool \<Rightarrow> int \<Rightarrow> SessionPoolConfig \<Rightarrow> world option" where
  "newSessionPool rpcGetter hcInterval spc =
     (if \<not> validate rpcGetter spc then None
      else Some
        \<lparr>sessions = (\<lambda>s. new_session []),
         pool = \<lparr>pvalid = True, idleList = [], idleWriteList = [], mayGetSession = 0,
                 numOpened = 0, createReqs = 0, prepareReqs = 0, config = spc\<rparr>,
         queue = [],
         interval = (if hcInterval = 0 then 5 * 60 * 1000000000 else hcInterval),
         closedChans = {}, nextChan = 1, nextElem = 0, nextSess = 0, rpcs = [],
         openSessionCount = []\<rparr>)"

subsection \<open>The maintainer\<close>

definition maxUint64 :: "64 word \<Rightarrow> 64 word \<Rightarrow> 64 word" where
  "maxUint64 a b = (if a > b then a else b)"

definition minUint64 :: "64 word \<Rightarrow> 64 word \<Rightarrow> 64 word" where
  "minUint64 a b = (if a > b then b else a)"

definition windowSize :: "64 word" where
  "windowSize = 10"

text \<open>
  The sample the maintainer takes under the pool lock: \<^verbatim>\<open>currSessionsInUse\<close> and
  \<^verbatim>\<open>currSessionsOpened\<close>.
\<close>

definition currSessionsInUse :: "world \<Rightarrow> 64 word" where
  "currSessionsInUse w =
     numOpened (pool w) - of_nat (list_Len (idleList (pool w)))
       - of_nat (list_Len (idleWriteList (pool w)))"

definition currSessionsOpened :: "world \<Rightarrow> 64 word" where
  "currSessionsOpened w = numOpened (pool w)"

text \<open>
  One pass of the loop of \<^verbatim>\<open>maintainer\<close>, up to the decision: \<^verbatim>\<open>var maxSessionsInUse uint64\<close>
  is declared in the body of the loop, so every pass starts it at zero.
\<close>

definition maintainer_maxSessionsInUse :: "64 word \<Rightarrow> world \<Rightarrow> 64 word" where
  "maintainer_maxSessionsInUse iteration w =
     (let maxSessionsInUse = 0
      in if iteration mod windowSize = 0 \<or> maxSessionsInUse < currSessionsInUse w
         then currSessionsInUse w else maxSessionsInUse)"

definition maintainer_sessionsToKeep :: "64 word \<Rightarrow> world \<Rightarrow> 64 word" where
  "maintainer_sessionsToKeep iteration w =
     maxUint64 (MinOpened (config (pool w)))
       (minUint64 (currSessionsOpened w)
          (MaxIdle (config (pool w)) + maintainer_maxSessionsInUse iteration w))"

datatype resize = Replenish "64 word" | Shrink "64 word"

definition maintainer_decision :: "64 word \<Rightarrow> world \<Rightarrow> resize" where
  "maintainer_decision iteration w =
     (let sessionsToKeep = maintainer_sessionsToKeep iteration w
      in if sessionsToKeep > currSessionsOpened w then Replenish sessionsToKeep
         else Shrink sessionsToKeep)"

text \<open>
  The targets of successive passes: the pass numbered \<open>iteration\<close> samples the first world
  of the list, the next pass the second, and so on.
\<close>

fun maintainer_targets :: "64 word \<Rightarrow> world list \<Rightarrow> 64 word list" where
  "maintainer_targets iteration [] = []"
| "maintainer_targets iteration (w # ws) =
     maintainer_sessionsToKeep iteration w # maintainer_targets (iteration + 1) ws"

text \<open>
  The part of a pass of \<^verbatim>\<open>replenishPool\<close> under the pool lock: leave the loop when
  \<^verbatim>\<open>sessionsToKeep <= p.numOpened\<close> (\<open>None\<close>), take budget otherwise. \<open>replenish_pass\<close> is
  the whole pass; it returns whether the loop goes on.
\<close>

definition replenish_budget :: "64 word \<Rightarrow> world \<Rightarrow> world option" where
  "replenish_budget sessionsToKeep w =
     (if sessionsToKeep \<le> numOpened (pool w) then None else Some (takeBudget w))"

definition replenish_pass :: "answers \<Rightarrow> 64 word \<Rightarrow> world \<Rightarrow> (bool \<times> world) option" where
  "replenish_pass a sessionsToKeep w =
     (if ctxErrSet a then Some (False, w)
      else
        (case replenish_budget sessionsToKeep w of
           None \<Rightarrow> Some (False, w)
         | Some w1 \<Rightarrow>
             (case createSession a w1 of
                None \<Rightarrow> None
              | Some (Inl err, w2) \<Rightarrow> Some (True, w2)
              | Some (Inr s, w2) \<Rightarrow>
                  (let w3 = (if shouldPrepareWrite a then snd (prepareForWrite a s w2) else w2)
                   in Some (True, snd (sessionPool_recycle s w3))))))"

text \<open>
  The part of a pass of \<^verbatim>\<open>take\<close> or \<^verbatim>\<open>takeWriteSession\<close> under the pool lock when both idle
  lists are empty: block at capacity (\<open>None\<close>), take budget otherwise.
\<close>

definition take_budget :: "world \<Rightarrow> world option" where
  "take_budget w = (if atCapacity w then None else Some (takeBudget w))"

subsection \<open>The workers of the health checker and \<^verbatim>\<open>shrinkPool\<close>\<close>

text \<open>
  \<^verbatim>\<open>markDone\<close> and \<^verbatim>\<open>healthCheck\<close>, whose deferred \<^verbatim>\<open>markDone\<close> runs on every return; the
  closures \<^verbatim>\<open>getNextForPing\<close> and \<^verbatim>\<open>getNextForTx\<close> of \<^verbatim>\<open>worker\<close>; and one pass of the loop of
  \<^verbatim>\<open>worker\<close> once it has found the checker open, its sleep left out.
\<close>

definition markDone :: "sref \<Rightarrow> world \<Rightarrow> world" where
  "markDone s w =
     w\<lparr>sessions := (sessions w)(s := (sessions w s)\<lparr>checkingHealth := False\<rparr>)\<rparr>"

definition healthCheck :: "answers \<Rightarrow> sref \<Rightarrow> world \<Rightarrow> world option" where
  "healthCheck a s w =
     (if \<not> pvalid (pool w)
      then (case session_destroy s False w of
              None \<Rightarrow> None
            | Some (_, w1) \<Rightarrow> Some (markDone s w1))
      else
        (let (err, w1) = session_ping a s w
         in if shouldDropSession err
            then (case session_destroy s False w1 of
                    None \<Rightarrow> None
                  | Some (_, w2) \<Rightarrow> Some (markDone s w2))
            else Some (markDone s w1)))"

definition getNextForPing :: "answers \<Rightarrow> world \<Rightarrow> (sref option \<times> world) option" where
  "getNextForPing a w =
     (if hcHeap_Len w \<le> 0 then Some (None, w)
      else
        (let s = queue w ! 0
         in if getNextCheck s w > nowHealthy a \<and> pvalid (pool w) then Some (None, w)
            else
              (case scheduledHCLocked s (nowScheduled a) (randInt63n a) w of
                 None \<Rightarrow> None
               | Some w1 \<Rightarrow>
                   if \<not> checkingHealth (sessions w1 s)
                   then Some (Some s,
                          w1\<lparr>sessions :=
                               (sessions w1)(s := (sessions w1 s)\<lparr>checkingHealth := True\<rparr>)\<rparr>)
                   else Some (None, w1))))"

definition getNextForTx :: "answers \<Rightarrow> world \<Rightarrow> sref option \<times> world" where
  "getNextForTx a w =
     (if shouldPrepareWrite a
      then
        (if list_Len (idleList (pool w)) > 0 \<and> pvalid (pool w)
         then
           (if checkingHealth (sessions w (snd (hd (idleList (pool w))))) then (None, w)
            else
              (let (s, l) = popFront (idleList (pool w));
                   w1 = w\<lparr>pool := (pool w)\<lparr>idleList := l\<rparr>\<rparr>;
                   w2 = w1\<lparr>sessions :=
                            (sessions w1)(s := (sessions w1 s)\<lparr>checkingHealth := True\<rparr>)\<rparr>
               in (Some s,
                   w2\<lparr>pool := (pool w2)\<lparr>prepareReqs := prepareReqs (pool w2) + 1\<rparr>\<rparr>)))
         else (None, w))
      else (None, w))"

definition worker_prepare :: "answers \<Rightarrow> sref \<Rightarrow> world \<Rightarrow> world" where
  "worker_prepare a ws w =
     (let w1 = snd (prepareForWrite a ws w);
          w2 = snd (sessionPool_recycle ws w1);
          w3 = w2\<lparr>pool := (pool w2)\<lparr>prepareReqs := prepareReqs (pool w2) - 1\<rparr>\<rparr>
      in markDone ws w3)"

definition worker_pass :: "answers \<Rightarrow> world \<Rightarrow> world option" where
  "worker_pass a w =
     (let (ws, w1) = getNextForTx a w;
          w2 = (case ws of None \<Rightarrow> w1 | Some s \<Rightarrow> worker_prepare a s w1)
      in case getNextForPing a w2 of
           None \<Rightarrow> None
         | Some (None, w3) \<Rightarrow> Some w3
         | Some (Some rs, w3) \<Rightarrow> healthCheck a rs w3)"

text \<open>One pass of the loop of \<^verbatim>\<open>shrinkPool\<close>; it returns whether the loop goes on.\<close>

definition shrink_pass :: "answers \<Rightarrow> 64 word \<Rightarrow> world \<Rightarrow> (bool \<times> world) option" where
  "shrink_pass a sessionsToKeep w =
     (if ctxErrSet a then Some (False, w)
      else if sessionsToKeep \<ge> numOpened (pool w) then Some (False, w)
      else
        (let so = (if list_Len (idleList (pool w)) > 0
                   then Some (snd (hd (idleList (pool w))))
                   else if list_Len (idleWriteList (pool w)) > 0
                   then Some (snd (hd (idleWriteList (pool w))))
                   else None)
         in case so of
              None \<Rightarrow> Some (False, w)
            | Some s \<Rightarrow>
                (case session_destroy s True w of
                   None \<Rightarrow> None
                 | Some (_, w1) \<Rightarrow> Some (True, w1))))"

text \<open>
  The part of a pass of \<^verbatim>\<open>shrinkPool\<close> under the pool lock: the session it is going to
  destroy once it has released the lock, \<open>None\<close> when the loop ends. Another goroutine may
  run between the two.
\<close>

definition shrink_pick :: "64 word \<Rightarrow> world \<Rightarrow> sref option" where
  "shrink_pick sessionsToKeep w =
     (if sessionsToKeep \<ge> numOpened (pool w) then None
      else if list_Len (idleList (pool w)) > 0
      then Some (snd (hd (idleList (pool w))))
      else if list_Len (idleWriteList (pool w)) > 0
      then Some (snd (hd (idleWriteList (pool w))))
      else None)"

subsection \<open>The claims' words, for comparison\<close>

text \<open>
  The caps of the pool counters, as the claim on them reads.
\<close>

definition caps_respected :: "world \<Rightarrow> bool" where
  "caps_respected w =
     ((if MaxOpened (config (pool w)) > 0
       then numOpened (pool w) \<le> MaxOpened (config (pool w)) else True)
      \<and> (if MaxBurst (config (pool w)) > 0
          then createReqs (pool w) \<le> MaxBurst (config (pool w)) else True))"

text \<open>
  The target of the maintainer as the claim on it reads: the running maximum is taken over
  the most recent ten samples, the newest sample first in \<open>samples\<close>.
\<close>

definition claimed_runningMaxInUse :: "world list \<Rightarrow> 64 word" where
  "claimed_runningMaxInUse samples = fold max (map currSessionsInUse (take 10 samples)) 0"

definition claimed_sessionsToKeep :: "world list \<Rightarrow> 64 word" where
  "claimed_sessionsToKeep samples =
     max (MinOpened (config (pool (hd samples))))
       (min (numOpened (pool (hd samples)))
          (MaxIdle (config (pool (hd samples))) + claimed_runningMaxInUse samples))"

text \<open>
  A session is in an idle list when one of the two lists of the pool holds it.
\<close>

definition in_idle_list :: "sref \<Rightarrow> world \<Rightarrow> bool" where
  "in_idle_list s w =
     (s \<in> snd ` set (idleList (pool w)) \<union> snd ` set (idleWriteList (pool w)))"

subsection \<open>Invariants and operation sequences of the health-check queue\<close>

text \<open>
  The queue is \<open>synced\<close> when it holds no session twice and every session in it stores
  its own position. \<open>hc_inv S\<close> adds that the sessions of \<open>S\<close>, those registered so far,
  store \<^verbatim>\<open>-1\<close> once they have left the queue. \<open>hc_erase\<close> forgets what the health
  checker keeps for itself: the queue, the stored indices and the times of the next checks.
  A \<open>heap_step\<close> permutes the queue and touches nothing but stored indices of sessions
  in it.
\<close>

definition synced :: "world \<Rightarrow> bool" where
  "synced w =
     (distinct (queue w)
      \<and> (\<forall>k<length (queue w). hcIndex (sessions w (queue w ! k)) = int k))"

definition hc_erase :: "world \<Rightarrow> world" where
  "hc_erase w =
     w\<lparr>sessions := (\<lambda>s. (sessions w s)\<lparr>hcIndex := 0, nextCheck := 0\<rparr>), queue := []\<rparr>"

definition heap_step :: "world \<Rightarrow> world \<Rightarrow> bool" where
  "heap_step w w' =
     (set (queue w') = set (queue w) \<and> length (queue w') = length (queue w)
      \<and> hc_erase w' = hc_erase w
      \<and> (\<forall>s. s \<notin> set (queue w) \<longrightarrow> hcIndex (sessions w' s) = hcIndex (sessions w s)))"

definition hc_inv :: "sref set \<Rightarrow> world \<Rightarrow> bool" where
  "hc_inv S w =
     (synced w \<and> set (queue w) \<subseteq> S
      \<and> (\<forall>s\<in>S. s \<notin> set (queue w) \<longrightarrow> hcIndex (sessions w s) = - 1))"

text \<open>
  The operations on the queue: the methods of \<^verbatim>\<open>hcHeap\<close>, the functions of container/heap
  applied to it, and \<^verbatim>\<open>unregister\<close>. \<open>hc_run\<close> runs a sequence of them and is \<open>None\<close>
  when one panics; \<open>pushes_new\<close> says that no session is pushed while it is in the queue.
\<close>

datatype hc_op =
    Push sref | Pop | Swap int int
  | HeapPush sref | HeapPop | HeapFix int | HeapRemove int
  | Unregister sref

fun hc_step :: "hc_op \<Rightarrow> world \<Rightarrow> world option" where
  "hc_step (Push s) w = Some (hcHeap_Push s w)"
| "hc_step Pop w = map_option snd (hcHeap_Pop w)"
| "hc_step (Swap i j) w = hcHeap_Swap i j w"
| "hc_step (HeapPush s) w = heap_Push s w"
| "hc_step HeapPop w = map_option snd (heap_Pop w)"
| "hc_step (HeapFix i) w = heap_Fix i w"
| "hc_step (HeapRemove i) w = map_option snd (heap_Remove i w)"
| "hc_step (Unregister s) w = unregister s w"

fun pushed :: "hc_op \<Rightarrow> sref set" where
  "pushed (Push s) = {s}"
| "pushed (HeapPush s) = {s}"
| "pushed _ = {}"

fun hc_run :: "hc_op list \<Rightarrow> world \<Rightarrow> world option" where
  "hc_run [] w = Some w"
| "hc_run (x # xs) w = (case hc_step x w of None \<Rightarrow> None | Some w1 \<Rightarrow> hc_run xs w1)"

fun pushes_new :: "hc_op list \<Rightarrow> world \<Rightarrow> bool" where
  "pushes_new [] w = True"
| "pushes_new (x # xs) w =
     (pushed x \<inter> set (queue w) = {}
      \<and> (case hc_step x w of None \<Rightarrow> True | Some w1 \<Rightarrow> pushes_new xs w1))"

text \<open>
  A session is \<open>dead\<close> once it is invalid and linked into no idle list.
\<close>

definition dead :: "sref \<Rightarrow> world \<Rightarrow> bool" where
  "dead s w = (\<not> valid (sessions w s) \<and> idleElem (sessions w s) = None)"

subsection \<open>Sequences of operations on the pool\<close>

text \<open>
  The operations through which the rest of the client and the maintainer reach the pool:
  \<^verbatim>\<open>sessionPool.recycle\<close> and \<^verbatim>\<open>sessionPool.remove\<close>, \<^verbatim>\<open>session.recycle\<close> and
  \<^verbatim>\<open>session.destroy\<close>, and one pass of \<^verbatim>\<open>take\<close>, of \<^verbatim>\<open>takeWriteSession\<close>, of
  \<^verbatim>\<open>replenishPool\<close>, of \<^verbatim>\<open>shrinkPool\<close> and of a worker. \<open>pool_run\<close> runs a sequence of
  them, \<open>None\<close> when one panics.
  A session is \<open>gone\<close> when it has been allocated and is dead.
\<close>

datatype pool_op =
    Recycle sref | Remove sref bool | SessionRecycle sref | Destroy sref bool
  | TakePass answers | TakeWritePass answers | ReplenishPass answers "64 word"
  | ShrinkPass answers "64 word" | WorkerPass answers

fun pool_step :: "pool_op \<Rightarrow> world \<Rightarrow> world option" where
  "pool_step (Recycle s) w = Some (snd (sessionPool_recycle s w))"
| "pool_step (Remove s isExpire) w = Some (snd (sessionPool_remove s isExpire w))"
| "pool_step (SessionRecycle s) w = session_recycle s w"
| "pool_step (Destroy s isExpire) w = map_option snd (session_destroy s isExpire w)"
| "pool_step (TakePass a) w = map_option snd (take_pass a w)"
| "pool_step (TakeWritePass a) w = map_option snd (takeWriteSession_pass a w)"
| "pool_step (ReplenishPass a k) w = map_option snd (replenish_pass a k w)"
| "pool_step (ShrinkPass a k) w = map_option snd (shrink_pass a k w)"
| "pool_step (WorkerPass a) w = worker_pass a w"

fun pool_run :: "pool_op list \<Rightarrow> world \<Rightarrow> world option" where
  "pool_run [] w = Some w"
| "pool_run (x # xs) w = (case pool_step x w of None \<Rightarrow> None | Some w1 \<Rightarrow> pool_run xs w1)"

definition gone :: "sref \<Rightarrow> world \<Rightarrow> bool" where
  "gone s w = (dead s w \<and> s < nextSess w)"

subsection \<open>Concrete configurations and worlds\<close>

text \<open>
  A configuration with a floor of two sessions, a cap of ten and one creation at a time;
  the pool \<^verbatim>\<open>newSessionPool\<close> builds for it; and that pool with one session, \<^verbatim>\<open>s0\<close>, checked
  out and counted.
\<close>

definition cfg0 :: SessionPoolConfig where
  "cfg0 = \<lparr>MaxOpened = 10, MinOpened = 2, MaxIdle = 0, MaxBurst = 1\<rparr>"

definition pool0 :: world where
  "pool0 =
     \<lparr>sessions = (\<lambda>s. new_session []),
      pool = \<lparr>pvalid = True, idleList = [], idleWriteList = [], mayGetSession = 0,
              numOpened = 0, createReqs = 0, prepareReqs = 0, config = cfg0\<rparr>,
      queue = [],
      interval = 5 * 60 * 1000000000,
      closedChans = {}, nextChan = 1, nextElem = 0, nextSess = 0, rpcs = [],
      openSessionCount = []\<rparr>"

definition answers0 :: answers where
  "answers0 =
     \<lparr>nowHealthy = 1000, nowScheduled = 1000, randInt63n = 7, ping = None, ctxDone = False,
      getRPCClient = None, CreateSessionRPC = Inr ''s0'', beginTransaction = Inr ''tx0'',
      shouldPrepareWrite = False, ctxErrSet = False\<rparr>"

text \<open>
  The world after one pass of \<^verbatim>\<open>take\<close> on \<open>pool0\<close> under \<open>answers0\<close>: the session
  \<^verbatim>\<open>s0\<close> is created, registered and handed out.
\<close>

definition pool1 :: world where
  "pool1 =
     \<lparr>sessions = (\<lambda>s. new_session [])
        (0 := \<lparr>sid = ''s0'', valid = True, hcIndex = 0, idleElem = None,
                nextCheck = 150000001007, checkingHealth = False, tx = None\<rparr>),
      pool = \<lparr>pvalid = True, idleList = [], idleWriteList = [], mayGetSession = 1,
              numOpened = 1, createReqs = 0, prepareReqs = 0, config = cfg0\<rparr>,
      queue = [0],
      interval = 5 * 60 * 1000000000,
      closedChans = {0}, nextChan = 2, nextElem = 0, nextSess = 1, rpcs = [CreateSession],
      openSessionCount = [1]\<rparr>"

text \<open>
  \<open>pool1\<close> after \<^verbatim>\<open>s0\<close> came back: it waits in the read-idle list. The answers of a
  later pass: the time is far beyond twice the interval after the next check of \<^verbatim>\<open>s0\<close>, and
  the ping fails because the server is unavailable.
\<close>

definition pool2 :: world where
  "pool2 = snd (sessionPool_recycle 0 pool1)"

definition answers1 :: answers where
  "answers1 =
     answers0\<lparr>nowHealthy := 800000000000, nowScheduled := 800000000000,
              ping := Some \<lparr>Code = Unavailable, Desc = ''down'', trailers = None\<rparr>\<rparr>"

text \<open>
  The test of \<^verbatim>\<open>isHealthy\<close>, \<^verbatim>\<open>s.getNextCheck().Add(2 * p.hc.getInterval()).Before(time.Now())\<close>;
  the world once the ping of a session has been issued; and a popped session with its link
  to the idle list cleared.
\<close>

definition stale :: "answers \<Rightarrow> sref \<Rightarrow> world \<Rightarrow> bool" where
  "stale a s w = (getNextCheck s w + 2 * interval w < nowHealthy a)"

definition pinged :: "sref \<Rightarrow> world \<Rightarrow> world" where
  "pinged s w = w\<lparr>rpcs := rpcs w @ [GetSession (getID s w)]\<rparr>"

definition unlinked :: "sref \<Rightarrow> world \<Rightarrow> world" where
  "unlinked s w = snd (setIdleList s None w)"

text \<open>
  Two samples for the maintainer: five sessions open and all in use; then five sessions
  open with three of them idle.
\<close>

definition busy5 :: world where
  "busy5 = pool0\<lparr>pool := (pool pool0)\<lparr>numOpened := 5\<rparr>\<rparr>"

definition quiet5 :: world where
  "quiet5 = pool0\<lparr>pool := (pool pool0)\<lparr>numOpened := 5, idleList := [(0, 0), (1, 1), (2, 2)]\<rparr>\<rparr>"

text \<open>
  The world inside \<^verbatim>\<open>sessionPool.createSession\<close> on \<open>pool0\<close>, after the budget was taken
  and the session \<^verbatim>\<open>s0\<close> was constructed, before \<^verbatim>\<open>p.hc.register(s)\<close>.
\<close>

definition fresh0 :: world where
  "fresh0 =
     (takeBudget pool0)
       \<lparr>rpcs := [CreateSession],
        sessions := (sessions pool0)(0 := new_session ''s0''),
        nextSess := 1\<rparr>"

text \<open>
  A configuration without a floor, as the default configuration has none; the pool
  \<^verbatim>\<open>newSessionPool\<close> builds for it; that pool after one pass of \<^verbatim>\<open>take\<close>, the session \<^verbatim>\<open>s0\<close>
  handed out; after \<^verbatim>\<open>s0\<close> came back to the read-idle list; and after a worker of the health
  checker took \<^verbatim>\<open>s0\<close> from that list to prepare it for write.
\<close>

definition cfg1 :: SessionPoolConfig where
  "cfg1 = \<lparr>MaxOpened = 10, MinOpened = 0, MaxIdle = 0, MaxBurst = 1\<rparr>"

definition lone0 :: world where
  "lone0 = pool0\<lparr>pool := (pool pool0)\<lparr>config := cfg1\<rparr>\<rparr>"

definition lone1 :: world where
  "lone1 = pool1\<lparr>pool := (pool pool1)\<lparr>config := cfg1\<rparr>\<rparr>"

definition lone2 :: world where
  "lone2 = snd (sessionPool_recycle 0 lone1)"

definition lone3 :: world where
  "lone3 = snd (getNextForTx (answers0\<lparr>shouldPrepareWrite := True\<rparr>) lone2)"

section \<open>Properties of the error classification\<close>

lemma strings_HasPrefix_prefix: "strings_HasPrefix s p = prefix p s"
  by (induction s p rule: strings_HasPrefix.induct) auto

lemma strings_Contains_sublist: "strings_Contains s substr = sublist substr s"
proof (induction s)
  case Nil
  then show ?case by (cases substr) simp_all
next
  case (Cons d s)
  then show ?case
    by (cases substr) (simp_all add: strings_HasPrefix_prefix sublist_Cons_right)
qed

lemma isRetryable_nil: "\<not> isRetryable None"
  by (simp add: isRetryable_def isErrorClosing_def isErrorUnexpectedEOF_def isErrorRST_def
      isErrorUnavailable_def)

text \<open>
  Claim C7. An error is retryable exactly when its code is Unavailable, or its code is
  Internal and its description contains one of the three transport messages, or its code is
  Unknown and its description contains "unexpected EOF". A session is dropped exactly on a
  NotFound whose description contains "Session not found". Neither holds of \<^verbatim>\<open>nil\<close>.
\<close>

theorem isRetryable_shouldDropSession_char:
  "isRetryable err =
     (\<exists>e. err = Some e \<and>
        (ErrCode e = Unavailable
         \<or> (ErrCode e = Internal
              \<and> (strings_Contains (ErrDesc e) ''transport is closing''
                 \<or> strings_Contains (ErrDesc e) ''stream terminated by RST_STREAM''
                 \<or> strings_Contains (ErrDesc e) ''unexpected EOF''))
         \<or> (ErrCode e = Unknown \<and> strings_Contains (ErrDesc e) ''unexpected EOF'')))
   \<and> shouldDropSession err =
     (\<exists>e. err = Some e \<and> ErrCode e = NotFound
          \<and> strings_Contains (ErrDesc e) ''Session not found'')
   \<and> isRetryable None = False
   \<and> shouldDropSession None = False"
  by (cases err)
     (auto simp: isRetryable_def isErrorClosing_def isErrorUnexpectedEOF_def isErrorRST_def
        isErrorUnavailable_def shouldDropSession_def)

theorem isRetryable_shouldDropSession_char_witness:
  "isRetryable (Some \<lparr>Code = Internal, Desc = ''rpc: unexpected EOF seen'', trailers = None\<rparr>)
   \<and> \<not> isRetryable (Some \<lparr>Code = NotFound, Desc = ''Session not found: s1'', trailers = None\<rparr>)
   \<and> shouldDropSession
        (Some \<lparr>Code = NotFound, Desc = ''Session not found: s1'', trailers = None\<rparr>)
   \<and> \<not> shouldDropSession
        (Some \<lparr>Code = Internal, Desc = ''rpc: unexpected EOF seen'', trailers = None\<rparr>)"
  using isRetryable_shouldDropSession_char
          [of "Some \<lparr>Code = Internal, Desc = ''rpc: unexpected EOF seen'', trailers = None\<rparr>"]
        isRetryable_shouldDropSession_char
          [of "Some \<lparr>Code = NotFound, Desc = ''Session not found: s1'', trailers = None\<rparr>"]
  by (simp add: ErrCode_def ErrDesc_def)

section \<open>Properties of the retryable invoker\<close>

text \<open>
  A row of retried attempts only moves the loop on: the calls and sleeps of the row come
  first, and the loop continues from the attempt count and the last error the row leaves.
\<close>

lemma runRetryableLoop_retried:
  "\<forall>x\<in>set pre. retried x \<Longrightarrow>
   runRetryableLoop ev ce fe n (pre @ rest) =
     (let r = runRetryableLoop ev ce (lastErr_of fe pre) (n + length pre) rest
      in r\<lparr>calls := map fResult pre @ calls r, sleeps := backoffs ev n pre @ sleeps r\<rparr>)"
proof (induction pre arbitrary: fe n)
  case Nil
  then show ?case by (simp add: lastErr_of_def)
next
  case (Cons a pre)
  from Cons.prems have ra: "retried a" and rp: "\<forall>x\<in>set pre. retried x" by simp_all
  from ra obtain e where e: "fResult a = Some e" "isRetryable (Some e)"
    "\<not> doneAtTop a" "\<not> doneInSleep a"
    by (cases "fResult a")
       (auto simp: retried_def isRetryable_def isErrorClosing_def isErrorUnexpectedEOF_def
          isErrorRST_def isErrorUnavailable_def)
  have le: "lastErr_of (Some e) pre = lastErr_of fe (a # pre)"
    using e by (simp add: lastErr_of_def)
  show ?case
    using e Cons.IH [OF rp, of "Some e" "Suc n"] le
    by (simp add: Let_def backoff_for_def)
qed

lemma runRetryableLoop_nil_iff:
  "(returned (runRetryableLoop ev ce fe n as) = Some None)
   = (None \<in> set (calls (runRetryableLoop ev ce fe n as)))"
  by (induction as arbitrary: fe n) (auto simp: Let_def split: option.splits)

lemma errContextCanceled_Code:
  "Code (errContextCanceled ev ce l)
   = (if ce = context_DeadlineExceeded then DeadlineExceeded else Canceled)"
  by (simp add: errContextCanceled_def spannerErrorf_def)

lemma errContextCanceled_Desc:
  "strings_Contains (Desc (errContextCanceled ev ce (Some e))) (Error_string ev e)"
proof -
  have "Desc (errContextCanceled ev ce (Some e))
        = (ctxErr_string ce @ '', lastErr is <'') @ Error_string ev e @ ''>''"
    by (simp add: errContextCanceled_def spannerErrorf_def fmt_error_def)
  then show ?thesis
    unfolding strings_Contains_sublist by (metis sublist_appendI)
qed

lemma extractRetryDelay_Some:
  "(extractRetryDelay ev e = Some d)
   = (\<exists>trs elem. errTrailers e = Some trs \<and> trs retryInfoKey = Some elem \<and> elem \<noteq> []
        \<and> decodeRetryInfo ev (hd elem) = Some d)"
  by (auto simp: extractRetryDelay_def hd_conv_nth split: option.splits)

text \<open>
  Claim C8. \<^verbatim>\<open>runRetryable\<close> returns \<^verbatim>\<open>nil\<close> exactly when some call of \<^verbatim>\<open>f\<close> returned
  \<^verbatim>\<open>nil\<close>. After any row \<open>pre\<close> of retried attempts, the next attempt \<open>a\<close> decides: when
  the context is done at the top of the loop, or wins the select of the backoff sleep, the
  result is the Canceled or DeadlineExceeded error whose description contains the text of
  the last error of \<^verbatim>\<open>f\<close>, if there is one; when \<^verbatim>\<open>f\<close> returns \<^verbatim>\<open>nil\<close>, the result is \<^verbatim>\<open>nil\<close>; when
  \<^verbatim>\<open>f\<close> returns an error that is not retryable, that error is returned and \<^verbatim>\<open>f\<close> is not called
  again, whatever attempts could follow. The sleep after the retryable error of the attempt
  numbered \<open>n\<close> is the delay decoded from the first element of the trailer
  \<^verbatim>\<open>google.rpc.retryinfo-bin\<close> when that is present and decodes, and the default backoff
  delay for \<open>n\<close> otherwise.
\<close>

theorem runRetryable_behaviour:
  assumes "\<forall>x\<in>set pre. retried x"
  shows
    "((returned (runRetryable ev ce as) = Some None)
       = (None \<in> set (calls (runRetryable ev ce as))))
     \<and> (doneAtTop a \<longrightarrow>
          runRetryable ev ce (pre @ a # rest)
          = \<lparr>returned = Some (Some (errContextCanceled ev ce (lastErr_of None pre))),
             calls = map fResult pre, sleeps = backoffs ev 0 pre\<rparr>)
     \<and> (\<not> doneAtTop a \<and> fResult a = None \<longrightarrow>
          runRetryable ev ce (pre @ a # rest)
          = \<lparr>returned = Some None, calls = map fResult pre @ [None],
             sleeps = backoffs ev 0 pre\<rparr>)
     \<and> (\<not> doneAtTop a \<and> fResult a \<noteq> None \<and> \<not> isRetryable (fResult a) \<longrightarrow>
          runRetryable ev ce (pre @ a # rest)
          = \<lparr>returned = Some (fResult a), calls = map fResult pre @ [fResult a],
             sleeps = backoffs ev 0 pre\<rparr>)
     \<and> (\<not> doneAtTop a \<and> isRetryable (fResult a) \<and> doneInSleep a \<longrightarrow>
          runRetryable ev ce (pre @ a # rest)
          = \<lparr>returned = Some (Some (errContextCanceled ev ce (fResult a))),
             calls = map fResult pre @ [fResult a],
             sleeps = backoffs ev 0 pre @ [backoff_for ev (length pre) (fResult a)]\<rparr>)
     \<and> Code (errContextCanceled ev ce lastErr)
         = (if ce = context_DeadlineExceeded then DeadlineExceeded else Canceled)
     \<and> (\<forall>e. lastErr = Some e \<longrightarrow>
           strings_Contains (Desc (errContextCanceled ev ce lastErr)) (Error_string ev e))
     \<and> (\<forall>e n. backoff_for ev n (Some e)
           = (case extractRetryDelay ev e of Some d \<Rightarrow> d | None \<Rightarrow> Delay ev n))
     \<and> (\<forall>e d. (extractRetryDelay ev e = Some d)
           = (\<exists>trs elem. errTrailers e = Some trs \<and> trs retryInfoKey = Some elem
                \<and> elem \<noteq> [] \<and> decodeRetryInfo ev (hd elem) = Some d))"
proof -
  have pre: "runRetryableLoop ev ce None 0 (pre @ a # rest) =
     (let r = runRetryableLoop ev ce (lastErr_of None pre) (0 + length pre) (a # rest)
      in r\<lparr>calls := map fResult pre @ calls r, sleeps := backoffs ev 0 pre @ sleeps r\<rparr>)"
    using assms by (rule runRetryableLoop_retried)
  have c1: "(returned (runRetryable ev ce as) = Some None)
       = (None \<in> set (calls (runRetryable ev ce as)))"
    using runRetryableLoop_nil_iff [of ev ce None 0 as]
    by (auto simp: runRetryable_def runRetryableNoWrap_def Let_def toSpannerError_def
        option.map_ident)
  have c2: "doneAtTop a \<Longrightarrow>
          runRetryable ev ce (pre @ a # rest)
          = \<lparr>returned = Some (Some (errContextCanceled ev ce (lastErr_of None pre))),
             calls = map fResult pre, sleeps = backoffs ev 0 pre\<rparr>"
    by (simp add: runRetryable_def runRetryableNoWrap_def pre Let_def toSpannerError_def)
  have c3: "\<not> doneAtTop a \<and> fResult a = None \<Longrightarrow>
          runRetryable ev ce (pre @ a # rest)
          = \<lparr>returned = Some None, calls = map fResult pre @ [None],
             sleeps = backoffs ev 0 pre\<rparr>"
    by (simp add: runRetryable_def runRetryableNoWrap_def pre Let_def toSpannerError_def)
  have c4: "\<not> doneAtTop a \<and> fResult a \<noteq> None \<and> \<not> isRetryable (fResult a) \<Longrightarrow>
          runRetryable ev ce (pre @ a # rest)
          = \<lparr>returned = Some (fResult a), calls = map fResult pre @ [fResult a],
             sleeps = backoffs ev 0 pre\<rparr>"
    by (auto simp: runRetryable_def runRetryableNoWrap_def pre Let_def toSpannerError_def)
  have c5: "\<not> doneAtTop a \<and> isRetryable (fResult a) \<and> doneInSleep a \<Longrightarrow>
          runRetryable ev ce (pre @ a # rest)
          = \<lparr>returned = Some (Some (errContextCanceled ev ce (fResult a))),
             calls = map fResult pre @ [fResult a],
             sleeps = backoffs ev 0 pre @ [backoff_for ev (length pre) (fResult a)]\<rparr>"
    by (cases "fResult a")
       (auto simp: runRetryable_def runRetryableNoWrap_def pre Let_def toSpannerError_def
          backoff_for_def isRetryable_nil)
  have c7: "\<forall>e. lastErr = Some e \<longrightarrow>
           strings_Contains (Desc (errContextCanceled ev ce lastErr)) (Error_string ev e)"
    using errContextCanceled_Desc by simp
  have c8: "\<forall>e n. backoff_for ev n (Some e)
           = (case extractRetryDelay ev e of Some d \<Rightarrow> d | None \<Rightarrow> Delay ev n)"
    by (simp add: backoff_for_def)
  have c9: "\<forall>e d. (extractRetryDelay ev e = Some d)
           = (\<exists>trs elem. errTrailers e = Some trs \<and> trs retryInfoKey = Some elem
                \<and> elem \<noteq> [] \<and> decodeRetryInfo ev (hd elem) = Some d)"
    using extractRetryDelay_Some by blast
  show ?thesis
    using c1 c2 c3 c4 c5 c7 c8 c9 errContextCanceled_Code by blast
qed


theorem runRetryable_behaviour_witness:
  "retried \<lparr>doneAtTop = False,
            fResult = Some \<lparr>Code = Unavailable, Desc = ''down'', trailers = None\<rparr>,
            doneInSleep = False\<rparr>
   \<and> runRetryable
        \<lparr>Error_string = Desc, Delay = (\<lambda>n. 100 * (int n + 1)),
           decodeRetryInfo = (\<lambda>s. None)\<rparr>
        context_Canceled
        [\<lparr>doneAtTop = False,
           fResult = Some \<lparr>Code = Unavailable, Desc = ''down'', trailers = None\<rparr>,
           doneInSleep = False\<rparr>,
         \<lparr>doneAtTop = False,
           fResult = Some \<lparr>Code = InvalidArgument, Desc = ''bad'', trailers = None\<rparr>,
           doneInSleep = False\<rparr>]
      = \<lparr>returned = Some (Some \<lparr>Code = InvalidArgument, Desc = ''bad'', trailers = None\<rparr>),
         calls = [Some \<lparr>Code = Unavailable, Desc = ''down'', trailers = None\<rparr>,
                  Some \<lparr>Code = InvalidArgument, Desc = ''bad'', trailers = None\<rparr>],
         sleeps = [100]\<rparr>"
proof -
  let ?a1 = "\<lparr>doneAtTop = False,
            fResult = Some \<lparr>Code = Unavailable, Desc = ''down'', trailers = None\<rparr>,
            doneInSleep = False\<rparr>"
  have r: "retried ?a1"
    by (simp add: retried_def isRetryable_def isErrorClosing_def isErrorUnexpectedEOF_def
        isErrorRST_def isErrorUnavailable_def ErrCode_def ErrDesc_def)
  then have h: "\<forall>x\<in>set [?a1]. retried x" by simp
  show ?thesis
    using r runRetryable_behaviour [OF h, where rest = "[]" and
        a = "\<lparr>doneAtTop = False,
           fResult = Some \<lparr>Code = InvalidArgument, Desc = ''bad'', trailers = None\<rparr>,
           doneInSleep = False\<rparr>" and
        ev = "\<lparr>Error_string = Desc, Delay = (\<lambda>n. 100 * (int n + 1)),
           decodeRetryInfo = (\<lambda>s. None)\<rparr>" and ce = context_Canceled]
    by (simp add: isRetryable_def isErrorClosing_def isErrorUnexpectedEOF_def
        isErrorRST_def isErrorUnavailable_def ErrCode_def ErrDesc_def backoff_for_def
        extractRetryDelay_def errTrailers_def)
qed

section \<open>The health-check queue keeps the stored indices\<close>

lemma heap_step_refl: "heap_step w w"
  by (simp add: heap_step_def)

lemma heap_step_trans: "heap_step w w1 \<Longrightarrow> heap_step w1 w2 \<Longrightarrow> heap_step w w2"
  by (simp add: heap_step_def)

lemma hc_erase_setHcIndex: "hc_erase (snd (setHcIndex s i w)) = hc_erase w"
  by (auto simp: hc_erase_def setHcIndex_def fun_eq_iff)

lemma hc_erase_queue: "hc_erase (w\<lparr>queue := q\<rparr>) = hc_erase w"
  by (simp add: hc_erase_def)

lemma hcHeap_Swap_ok:
  assumes r: "in_queue i w" "in_queue j w" and d: "distinct (queue w)"
    and o: "\<forall>k<length (queue w). k \<noteq> nat i \<and> k \<noteq> nat j
              \<longrightarrow> hcIndex (sessions w (queue w ! k)) = int k"
  shows "\<exists>w'. hcHeap_Swap i j w = Some w' \<and> heap_step w w' \<and> synced w'"
proof -
  let ?q = "queue w"
  let ?I = "nat i" and ?J = "nat j"
  have I: "?I < length ?q" "int ?I = i" and J: "?J < length ?q" "int ?J = j"
    using r by (auto simp: in_queue_def hcHeap_Len_def)
  let ?q' = "?q[?I := ?q ! ?J, ?J := ?q ! ?I]"
  let ?w' = "w\<lparr>queue := ?q',
                sessions := (sessions w)(?q' ! ?I := (sessions w (?q' ! ?I))\<lparr>hcIndex := i\<rparr>,
                   ?q' ! ?J := (((sessions w)(?q' ! ?I := (sessions w (?q' ! ?I))\<lparr>hcIndex := i\<rparr>))
                                 (?q' ! ?J))\<lparr>hcIndex := j\<rparr>)\<rparr>"
  have sw: "hcHeap_Swap i j w = Some ?w'"
    using r by (simp add: hcHeap_Swap_def Let_def setHcIndex_def)
  have set': "set ?q' = set ?q" using I J by (simp add: set_swap)
  have dist': "distinct ?q'" using I J d by (simp add: distinct_swap)
  have qI: "?q' ! ?I = ?q ! ?J" and qJ: "?q' ! ?J = ?q ! ?I"
    using I J by (auto simp: nth_list_update)
  have step: "heap_step w ?w'"
    using set' I J qI qJ
    by (auto simp: heap_step_def hc_erase_def fun_eq_iff)
  have sy: "synced ?w'"
    unfolding synced_def
  proof (intro conjI allI impI)
    show "distinct (queue ?w')" using dist' by simp
  next
    fix k assume "k < length (queue ?w')"
    then have k: "k < length ?q" by simp
    show "hcIndex (sessions ?w' (queue ?w' ! k)) = int k"
    proof (cases "k = ?J")
      case True
      then show ?thesis using J by simp
    next
      case nJ: False
      show ?thesis
      proof (cases "k = ?I")
        case True
        then have "?q' ! k \<noteq> ?q' ! ?J"
          using nJ dist' k J by (simp add: nth_eq_iff_index_eq)
        then show ?thesis using True I by simp
      next
        case nI: False
        have kk: "?q' ! k = ?q ! k" using nI nJ by simp
        have "?q ! k \<noteq> ?q ! ?I" "?q ! k \<noteq> ?q ! ?J"
          using nI nJ d k I J by (simp_all add: nth_eq_iff_index_eq)
        then show ?thesis using kk qI qJ o k nI nJ by simp
      qed
    qed
  qed
  from sw step sy show ?thesis by blast
qed

lemma synced_others:
  "synced w \<Longrightarrow> \<forall>k<length (queue w). k \<noteq> a \<and> k \<noteq> b
              \<longrightarrow> hcIndex (sessions w (queue w ! k)) = int k"
  by (simp add: synced_def)

lemma heap_step_in_queue: "heap_step w w' \<Longrightarrow> in_queue i w' = in_queue i w"
  by (simp add: heap_step_def in_queue_def hcHeap_Len_def)

lemma heap_up_ok:
  "synced w \<Longrightarrow> in_queue j w \<Longrightarrow>
   \<exists>w'. heap_up j w = Some w' \<and> heap_step w w' \<and> synced w'"
proof (induction j w rule: heap_up.induct)
  case (1 j w)
  let ?i = "go_div (j - 1) 2"
  have j0: "0 \<le> j" "j < hcHeap_Len w" using "1.prems" by (simp_all add: in_queue_def)
  have ir: "in_queue ?i w"
    using j0 by (auto simp: in_queue_def go_div_def sgn_if)
  show ?case
  proof (cases "?i = j")
    case True
    then show ?thesis using "1.prems" by (simp add: heap_up.simps [of j w] heap_step_refl)
  next
    case False
    obtain b where b: "hcHeap_Less j ?i w = Some b"
      using ir "1.prems" by (simp add: hcHeap_Less_def)
    show ?thesis
    proof (cases b)
      case False
      with \<open>?i \<noteq> j\<close> b show ?thesis
        using "1.prems" by (simp add: heap_up.simps [of j w] heap_step_refl)
    next
      case True
      have d: "distinct (queue w)" using "1.prems" by (simp add: synced_def)
      obtain w1 where w1: "hcHeap_Swap ?i j w = Some w1" "heap_step w w1" "synced w1"
        using hcHeap_Swap_ok [OF ir "1.prems"(2) d synced_others [OF "1.prems"(1)]] by blast
      have "in_queue ?i w1" using ir w1(2) by (simp add: heap_step_in_queue)
      from "1.IH" [OF refl \<open>?i \<noteq> j\<close> b _ w1(1) w1(3) this] True
      obtain w' where "heap_up ?i w1 = Some w'" "heap_step w1 w'" "synced w'" by auto
      then show ?thesis
        using \<open>?i \<noteq> j\<close> b True w1 heap_step_trans
        by (auto simp: heap_up.simps [of j w])
    qed
  qed
qed

lemma heap_down_loop_ok:
  "synced w \<Longrightarrow> 0 \<le> i \<Longrightarrow> n \<le> hcHeap_Len w \<Longrightarrow>
   \<exists>i' w'. heap_down_loop i n w = Some (i', w') \<and> heap_step w w' \<and> synced w'"
proof (induction i n w rule: heap_down_loop.induct)
  case (1 i n w)
  let ?j1 = "2 * i + 1"
  show ?case
  proof (cases "?j1 \<ge> n \<or> ?j1 < 0")
    case True
    then show ?thesis
      using "1.prems" by (simp add: heap_down_loop.simps [of i n w] heap_step_refl)
  next
    case stop: False
    then have j1n: "?j1 < n" "0 \<le> ?j1" by simp_all
    have ri: "in_queue i w" and rj1: "in_queue ?j1 w"
      using j1n "1.prems" by (simp_all add: in_queue_def)
    let ?c = "if ?j1 + 1 < n then hcHeap_Less (?j1 + 1) ?j1 w else Some False"
    have "\<exists>r. ?c = Some r"
    proof (cases "?j1 + 1 < n")
      case True
      then have "in_queue (?j1 + 1) w"
        using j1n "1.prems" by (simp add: in_queue_def)
      then have "\<exists>r. hcHeap_Less (?j1 + 1) ?j1 w = Some r"
        using rj1 unfolding hcHeap_Less_def by (simp only: simp_thms if_True) blast
      then show ?thesis using True by (simp only: if_True)
    next
      case False
      then show ?thesis by (simp only: if_False) blast
    qed
    then obtain r where r: "?c = Some r" by blast
    let ?j = "if r then ?j1 + 1 else ?j1"
    have rtrue: "r \<Longrightarrow> ?j1 + 1 < n"
      using r by (auto split: if_splits)
    have rj: "in_queue ?j w"
      using rj1 rtrue "1.prems" j1n by (auto simp: in_queue_def)
    obtain b where b: "hcHeap_Less ?j i w = Some b"
      using ri rj by (simp add: hcHeap_Less_def)
    show ?thesis
    proof (cases b)
      case False
      then show ?thesis
        using stop r b "1.prems"
        by (simp add: heap_down_loop.simps [of i n w] heap_step_refl Let_def)
    next
      case True
      have d: "distinct (queue w)" using "1.prems" by (simp add: synced_def)
      obtain w1 where w1: "hcHeap_Swap i ?j w = Some w1" "heap_step w w1" "synced w1"
        using hcHeap_Swap_ok [OF ri rj d synced_others [OF "1.prems"(1)]] by blast
      have j0: "0 \<le> ?j" using j1n by simp
      have len: "n \<le> hcHeap_Len w1"
        using "1.prems" w1(2) by (simp add: heap_step_def hcHeap_Len_def)
      from "1.IH" [OF refl stop r refl b _ w1(1) w1(3) j0 len] True
      obtain i' w' where "heap_down_loop ?j n w1 = Some (i', w')" "heap_step w1 w'" "synced w'"
        by auto
      then show ?thesis
        using stop r b True w1 heap_step_trans
        by (auto simp: heap_down_loop.simps [of i n w] Let_def)
    qed
  qed
qed

lemma heap_down_ok:
  "synced w \<Longrightarrow> 0 \<le> i \<Longrightarrow> n \<le> hcHeap_Len w \<Longrightarrow>
   \<exists>m w'. heap_down i n w = Some (m, w') \<and> heap_step w w' \<and> synced w'"
  using heap_down_loop_ok [of w i n] by (auto simp: heap_down_def)

lemma heap_Fix_ok:
  assumes "synced w" "in_queue i w"
  shows "\<exists>w'. heap_Fix i w = Some w' \<and> heap_step w w' \<and> synced w'"
proof -
  have "0 \<le> i" using assms by (simp add: in_queue_def)
  then obtain m w1 where d: "heap_down i (hcHeap_Len w) w = Some (m, w1)" "heap_step w w1"
    "synced w1"
    using heap_down_ok [OF assms(1), of i "hcHeap_Len w"] by auto
  show ?thesis
  proof (cases m)
    case True
    then show ?thesis using d by (simp add: heap_Fix_def)
  next
    case False
    have "in_queue i w1" using assms d by (simp add: heap_step_in_queue)
    then obtain w2 where "heap_up i w1 = Some w2" "heap_step w1 w2" "synced w2"
      using heap_up_ok [OF d(3)] by blast
    then show ?thesis using d False heap_step_trans by (auto simp: heap_Fix_def)
  qed
qed

text \<open>The Fix that \<^verbatim>\<open>register\<close> runs for a new session on an empty queue.\<close>

lemma heap_Fix_empty: "queue w = [] \<Longrightarrow> heap_Fix 0 w = Some w"
  by (simp add: heap_Fix_def heap_down_def heap_down_loop.simps [of 0 0 w] hcHeap_Len_def
      heap_up.simps [of 0 w] go_div_def)

lemma heap_step_inv: "hc_inv S w \<Longrightarrow> heap_step w w' \<Longrightarrow> synced w' \<Longrightarrow> hc_inv S w'"
  by (simp add: hc_inv_def heap_step_def)

lemma hcHeap_Push_inv:
  assumes "hc_inv S w" "s \<notin> set (queue w)"
  shows "hc_inv (insert s S) (hcHeap_Push s w)"
proof -
  have q: "queue (hcHeap_Push s w) = queue w @ [s]"
    by (simp add: hcHeap_Push_def Let_def setHcIndex_def)
  have h: "\<And>x. hcIndex (sessions (hcHeap_Push s w) x)
            = (if x = s then int (length (queue w)) else hcIndex (sessions w x))"
    by (simp add: hcHeap_Push_def Let_def setHcIndex_def hcHeap_Len_def)
  have sy: "synced (hcHeap_Push s w)"
    unfolding synced_def
  proof (intro conjI allI impI)
    show "distinct (queue (hcHeap_Push s w))"
      using assms q by (simp add: hc_inv_def synced_def)
  next
    fix k assume "k < length (queue (hcHeap_Push s w))"
    then have "k < length (queue w) \<or> k = length (queue w)" using q by auto
    then show "hcIndex (sessions (hcHeap_Push s w) (queue (hcHeap_Push s w) ! k)) = int k"
    proof
      assume k: "k < length (queue w)"
      then have "queue w ! k \<noteq> s" using assms(2) by (metis nth_mem)
      then show ?thesis using k q h assms(1) by (simp add: nth_append hc_inv_def synced_def)
    next
      assume "k = length (queue w)"
      then show ?thesis using q h by simp
    qed
  qed
  show ?thesis
    using sy assms q h by (auto simp: hc_inv_def)
qed

lemma hcHeap_Pop_inv:
  assumes d: "distinct (queue w)" and ne: "queue w \<noteq> []"
    and o: "\<forall>k<length (queue w). k \<noteq> length (queue w) - 1
              \<longrightarrow> hcIndex (sessions w (queue w ! k)) = int k"
    and sub: "set (queue w) \<subseteq> S"
    and out: "\<forall>s\<in>S. s \<notin> set (queue w) \<longrightarrow> hcIndex (sessions w s) = - 1"
  shows "\<exists>x w'. hcHeap_Pop w = Some (x, w') \<and> hc_inv S w'"
proof -
  let ?x = "last (queue w)"
  let ?w' = "snd (setHcIndex ?x (- 1) (w\<lparr>queue := butlast (queue w)\<rparr>))"
  have p: "hcHeap_Pop w = Some (?x, ?w')" using ne by (simp add: hcHeap_Pop_def Let_def)
  have q: "queue ?w' = butlast (queue w)" by (simp add: setHcIndex_def)
  have h: "\<And>y. hcIndex (sessions ?w' y) = (if y = ?x then - 1 else hcIndex (sessions w y))"
    by (simp add: setHcIndex_def)
  have xq: "?x \<notin> set (butlast (queue w))"
    using d ne by (metis append_butlast_last_id distinct_append disjoint_insert(1)
        list.set(2) distinct.simps(2) not_distinct_conv_prefix in_set_conv_decomp)
  have setq: "set (queue w) = insert ?x (set (butlast (queue w)))"
    using ne by (metis append_butlast_last_id list.set(1) list.set(2) set_append Un_insert_right
        sup_bot.right_neutral)
  have sy: "synced ?w'"
    unfolding synced_def
  proof (intro conjI allI impI)
    show "distinct (queue ?w')" using d q by (simp add: distinct_butlast)
  next
    fix k assume "k < length (queue ?w')"
    then have k: "k < length (queue w) - 1" using q by simp
    then have "butlast (queue w) ! k \<in> set (butlast (queue w))" by simp
    then have nx: "butlast (queue w) ! k \<noteq> ?x" using xq by metis
    have "butlast (queue w) ! k = queue w ! k" using k by (simp add: nth_butlast)
    then show "hcIndex (sessions ?w' (queue ?w' ! k)) = int k"
      using q h nx o k by simp
  qed
  have "hc_inv S ?w'"
    unfolding hc_inv_def
  proof (intro conjI ballI impI)
    show "synced ?w'" by (rule sy)
    show "set (queue ?w') \<subseteq> S" using sub q setq by auto
  next
    fix y assume "y \<in> S" "y \<notin> set (queue ?w')"
    then show "hcIndex (sessions ?w' y) = - 1"
      using h q setq out by (cases "y = ?x") auto
  qed
  with p show ?thesis by blast
qed

lemma hc_inv_Pop:
  assumes "hc_inv S w" "queue w \<noteq> []"
  shows "\<exists>x w'. hcHeap_Pop w = Some (x, w') \<and> hc_inv S w'"
proof -
  have d: "distinct (queue w)" using assms(1) by (simp add: hc_inv_def synced_def)
  have o: "\<forall>k<length (queue w). k \<noteq> length (queue w) - 1
              \<longrightarrow> hcIndex (sessions w (queue w ! k)) = int k"
    using assms(1) by (simp add: hc_inv_def synced_def)
  have sub: "set (queue w) \<subseteq> S" using assms(1) by (simp add: hc_inv_def)
  have out: "\<forall>s\<in>S. s \<notin> set (queue w) \<longrightarrow> hcIndex (sessions w s) = - 1"
    using assms(1) by (simp add: hc_inv_def)
  show ?thesis by (rule hcHeap_Pop_inv [OF d assms(2) o sub out])
qed

lemma heap_Push_inv:
  assumes "hc_inv S w" "s \<notin> set (queue w)"
  shows "\<exists>w'. heap_Push s w = Some w' \<and> hc_inv (insert s S) w'"
proof -
  let ?w1 = "hcHeap_Push s w"
  have i1: "hc_inv (insert s S) ?w1" using assms by (rule hcHeap_Push_inv)
  have "queue ?w1 = queue w @ [s]" by (simp add: hcHeap_Push_def Let_def setHcIndex_def)
  then have "in_queue (hcHeap_Len ?w1 - 1) ?w1" by (simp add: in_queue_def hcHeap_Len_def)
  then obtain w' where "heap_up (hcHeap_Len ?w1 - 1) ?w1 = Some w'" "heap_step ?w1 w'"
    "synced w'"
    using heap_up_ok i1 unfolding hc_inv_def by blast
  then show ?thesis using i1 heap_step_inv by (auto simp: heap_Push_def Let_def)
qed

lemma heap_Pop_inv:
  assumes "hc_inv S w" "queue w \<noteq> []"
  shows "\<exists>x w'. heap_Pop w = Some (x, w') \<and> hc_inv S w'"
proof -
  let ?n = "hcHeap_Len w - 1"
  have sy: "synced w" using assms by (simp add: hc_inv_def)
  have r: "in_queue 0 w" "in_queue ?n w"
    using assms(2) by (simp_all add: in_queue_def hcHeap_Len_def)
  obtain w1 where w1: "hcHeap_Swap 0 ?n w = Some w1" "heap_step w w1" "synced w1"
    using hcHeap_Swap_ok [OF r _ synced_others [OF sy]] sy unfolding synced_def by blast
  have "?n \<le> hcHeap_Len w1" using w1(2) by (simp add: heap_step_def hcHeap_Len_def)
  then obtain m w2 where w2: "heap_down 0 ?n w1 = Some (m, w2)" "heap_step w1 w2" "synced w2"
    using heap_down_ok [OF w1(3), of 0 ?n] by auto
  have i2: "hc_inv S w2"
    using assms(1) w1 w2 heap_step_inv by blast
  have "queue w2 \<noteq> []"
    using assms(2) w1(2) w2(2) by (auto simp: heap_step_def)
  then obtain x w' where "hcHeap_Pop w2 = Some (x, w')" "hc_inv S w'"
    using hc_inv_Pop [OF i2] by blast
  then show ?thesis using w1 w2 by (auto simp: heap_Pop_def Let_def)
qed

lemma heap_Remove_inv:
  assumes d: "distinct (queue w)" and r: "in_queue i w"
    and o: "\<forall>k<length (queue w). k \<noteq> nat i
              \<longrightarrow> hcIndex (sessions w (queue w ! k)) = int k"
    and sub: "set (queue w) \<subseteq> S"
    and out: "\<forall>s\<in>S. s \<notin> set (queue w) \<longrightarrow> hcIndex (sessions w s) = - 1"
  shows "\<exists>x w'. heap_Remove i w = Some (x, w') \<and> hc_inv S w'"
proof (cases "hcHeap_Len w - 1 = i")
  case True
  then have "nat i = length (queue w) - 1" by (simp add: hcHeap_Len_def)
  moreover have "queue w \<noteq> []" using r by (auto simp: in_queue_def hcHeap_Len_def)
  ultimately obtain x w' where "hcHeap_Pop w = Some (x, w')" "hc_inv S w'"
    using hcHeap_Pop_inv [OF d _ _ sub out] o by auto
  then show ?thesis using True by (auto simp: heap_Remove_def Let_def)
next
  case False
  let ?n = "hcHeap_Len w - 1"
  have rn: "in_queue ?n w" using r by (auto simp: in_queue_def)
  have o2: "\<forall>k<length (queue w). k \<noteq> nat i \<and> k \<noteq> nat ?n
              \<longrightarrow> hcIndex (sessions w (queue w ! k)) = int k"
    using o by simp
  obtain w1 where w1: "hcHeap_Swap i ?n w = Some w1" "heap_step w w1" "synced w1"
    using hcHeap_Swap_ok [OF r rn d o2] by blast
  have outs: "\<And>v v'. heap_step v v' \<Longrightarrow> synced v' \<Longrightarrow> set (queue v) \<subseteq> S
      \<Longrightarrow> (\<forall>s\<in>S. s \<notin> set (queue v) \<longrightarrow> hcIndex (sessions v s) = - 1) \<Longrightarrow> hc_inv S v'"
    by (simp add: hc_inv_def heap_step_def)
  have i1: "hc_inv S w1" using outs [OF w1(2) w1(3) sub out] .
  have i0: "0 \<le> i" using r by (simp add: in_queue_def)
  have "?n \<le> hcHeap_Len w1" using w1(2) by (simp add: heap_step_def hcHeap_Len_def)
  then obtain m w2 where w2: "heap_down i ?n w1 = Some (m, w2)" "heap_step w1 w2" "synced w2"
    using heap_down_ok [OF w1(3) i0, of ?n] by auto
  have i2: "hc_inv S w2" using i1 w2 heap_step_inv by blast
  have ne2: "queue w2 \<noteq> []"
    using r w1(2) w2(2) by (auto simp: heap_step_def in_queue_def hcHeap_Len_def)
  show ?thesis
  proof (cases m)
    case True
    obtain x w' where "hcHeap_Pop w2 = Some (x, w')" "hc_inv S w'"
      using hc_inv_Pop [OF i2 ne2] by blast
    then show ?thesis using False True w1 w2 by (auto simp: heap_Remove_def Let_def)
  next
    case nm: False
    have "in_queue i w2" using r w1(2) w2(2) by (simp add: heap_step_in_queue)
    then obtain w3 where w3: "heap_up i w2 = Some w3" "heap_step w2 w3" "synced w3"
      using heap_up_ok [OF w2(3)] by blast
    have i3: "hc_inv S w3" using i2 w3 heap_step_inv by blast
    have "queue w3 \<noteq> []" using ne2 w3(2) by (auto simp: heap_step_def)
    then obtain x w' where "hcHeap_Pop w3 = Some (x, w')" "hc_inv S w'"
      using hc_inv_Pop [OF i3] by blast
    then show ?thesis using False nm w1 w2 w3 by (auto simp: heap_Remove_def Let_def)
  qed
qed

lemma hc_inv_Remove:
  assumes "hc_inv S w" "in_queue i w"
  shows "\<exists>x w'. heap_Remove i w = Some (x, w') \<and> hc_inv S w'"
proof -
  have d: "distinct (queue w)" using assms(1) by (simp add: hc_inv_def synced_def)
  have o: "\<forall>k<length (queue w). k \<noteq> nat i
              \<longrightarrow> hcIndex (sessions w (queue w ! k)) = int k"
    using assms(1) by (simp add: hc_inv_def synced_def)
  have sub: "set (queue w) \<subseteq> S" using assms(1) by (simp add: hc_inv_def)
  have out: "\<forall>s\<in>S. s \<notin> set (queue w) \<longrightarrow> hcIndex (sessions w s) = - 1"
    using assms(1) by (simp add: hc_inv_def)
  show ?thesis by (rule heap_Remove_inv [OF d assms(2) o sub out])
qed

lemma hc_inv_Fix:
  assumes "hc_inv S w" "in_queue i w"
  shows "\<exists>w'. heap_Fix i w = Some w' \<and> hc_inv S w'"
proof -
  have "synced w" using assms(1) by (simp add: hc_inv_def)
  then obtain w' where "heap_Fix i w = Some w'" "heap_step w w'" "synced w'"
    using heap_Fix_ok assms(2) by blast
  then show ?thesis using heap_step_inv [OF assms(1)] by blast
qed

lemma hc_inv_Swap:
  assumes "hc_inv S w" "in_queue i w" "in_queue j w"
  shows "\<exists>w'. hcHeap_Swap i j w = Some w' \<and> hc_inv S w'"
proof -
  have sy: "synced w" using assms(1) by (simp add: hc_inv_def)
  then have d: "distinct (queue w)" by (simp add: synced_def)
  obtain w' where "hcHeap_Swap i j w = Some w'" "heap_step w w'" "synced w'"
    using hcHeap_Swap_ok [OF assms(2) assms(3) d synced_others [OF sy]] by blast
  then show ?thesis using heap_step_inv [OF assms(1)] by blast
qed

lemma world_setHcIndex_same:
  assumes "hcIndex (sessions w s) = i"
  shows "snd (setHcIndex s i w) = w"
proof -
  have "(sessions w s)\<lparr>hcIndex := i\<rparr> = sessions w s" using assms by simp
  then show ?thesis by (simp add: setHcIndex_def)
qed

lemma unregister_unregistered:
  assumes "hc_inv S w" "s \<in> S" "s \<notin> set (queue w)"
  shows "unregister s w = Some w"
proof -
  have "hcIndex (sessions w s) = - 1" using assms by (simp add: hc_inv_def)
  then show ?thesis
    using world_setHcIndex_same [of w s "- 1"]
    by (simp add: unregister_def setHcIndex_def)
qed

lemma unregister_inv:
  assumes i: "hc_inv S w" and u: "unregister s w = Some w'"
  shows "hc_inv S w'"
proof -
  let ?oi = "hcIndex (sessions w s)"
  let ?w1 = "snd (setHcIndex s (- 1) w)"
  have q1: "queue ?w1 = queue w" by (simp add: setHcIndex_def)
  have h1: "\<And>y. hcIndex (sessions ?w1 y) = (if y = s then - 1 else hcIndex (sessions w y))"
    by (simp add: setHcIndex_def)
  show ?thesis
  proof (cases "?oi \<ge> 0")
    case False
    then have "w' = ?w1" using u by (simp add: unregister_def setHcIndex_def)
    moreover have "s \<notin> set (queue w)"
    proof
      assume "s \<in> set (queue w)"
      then obtain k where "k < length (queue w)" "queue w ! k = s"
        by (auto simp: in_set_conv_nth)
      then have "?oi = int k" using i by (auto simp: hc_inv_def synced_def)
      with False show False by simp
    qed
    ultimately have w': "w' = ?w1" and ns: "s \<notin> set (queue w)" by simp_all
    have "\<forall>k<length (queue w). queue w ! k \<noteq> s" using ns by auto
    then have "synced ?w1"
      using i q1 h1 by (simp add: hc_inv_def synced_def)
    moreover have "\<forall>y\<in>S. y \<notin> set (queue ?w1) \<longrightarrow> hcIndex (sessions ?w1 y) = - 1"
      using i q1 h1 by (simp add: hc_inv_def)
    moreover have "set (queue ?w1) \<subseteq> S" using i q1 by (simp add: hc_inv_def)
    ultimately show ?thesis unfolding w' hc_inv_def by blast
  next
    case True
    then have rm: "map_option snd (heap_Remove ?oi ?w1) = Some w'"
      using u by (simp add: unregister_def setHcIndex_def)
    then obtain x where x: "heap_Remove ?oi ?w1 = Some (x, w')" by auto
    have rng: "in_queue ?oi ?w1"
    proof (rule ccontr)
      assume "\<not> in_queue ?oi ?w1"
      then have nr: "\<not> in_queue ?oi ?w1" .
      have "heap_Remove ?oi ?w1 = None"
      proof (cases "hcHeap_Len ?w1 - 1 = ?oi")
        case True
        then have "queue ?w1 = []" using nr \<open>?oi \<ge> 0\<close>
          by (auto simp: in_queue_def hcHeap_Len_def)
        then show ?thesis using True by (simp add: heap_Remove_def hcHeap_Pop_def Let_def)
      next
        case False
        then show ?thesis using nr by (simp add: heap_Remove_def hcHeap_Swap_def Let_def)
      qed
      with x show False by simp
    qed
    have d: "distinct (queue ?w1)" using i q1 by (simp add: hc_inv_def synced_def)
    have o: "\<forall>k<length (queue ?w1). k \<noteq> nat ?oi
              \<longrightarrow> hcIndex (sessions ?w1 (queue ?w1 ! k)) = int k"
    proof (intro allI impI)
      fix k assume k: "k < length (queue ?w1)" "k \<noteq> nat ?oi"
      then have kk: "hcIndex (sessions w (queue w ! k)) = int k"
        using i q1 by (simp add: hc_inv_def synced_def)
      then have "queue w ! k \<noteq> s" using k True by auto
      then show "hcIndex (sessions ?w1 (queue ?w1 ! k)) = int k"
        using kk q1 h1 by simp
    qed
    have sub: "set (queue ?w1) \<subseteq> S" using i q1 by (simp add: hc_inv_def)
    have out: "\<forall>y\<in>S. y \<notin> set (queue ?w1) \<longrightarrow> hcIndex (sessions ?w1 y) = - 1"
      using i q1 h1 by (simp add: hc_inv_def)
    from heap_Remove_inv [OF d rng o sub out] x show ?thesis by auto
  qed
qed

lemma heap_Remove_out_of_range: "\<not> in_queue i w \<Longrightarrow> heap_Remove i w = None"
proof (cases "hcHeap_Len w - 1 = i")
  case True
  assume "\<not> in_queue i w"
  with True have "queue w = []" by (auto simp: in_queue_def hcHeap_Len_def)
  then show ?thesis using True by (simp add: heap_Remove_def hcHeap_Pop_def Let_def)
next
  case False
  assume "\<not> in_queue i w"
  with False show ?thesis by (simp add: heap_Remove_def hcHeap_Swap_def Let_def)
qed

lemma heap_Fix_out_of_range:
  assumes "\<not> in_queue i w" "heap_Fix i w = Some w'"
  shows "w' = w"
proof -
  have "2 * i + 1 \<ge> hcHeap_Len w \<or> 2 * i + 1 < 0"
    using assms(1) by (auto simp: in_queue_def hcHeap_Len_def)
  then have d: "heap_down i (hcHeap_Len w) w = Some (False, w)"
    by (simp add: heap_down_def heap_down_loop.simps [of i "hcHeap_Len w" w])
  then have u: "heap_up i w = Some w'" using assms(2) by (simp add: heap_Fix_def)
  show ?thesis
  proof (cases "go_div (i - 1) 2 = i")
    case True
    then show ?thesis using u by (simp add: heap_up.simps [of i w])
  next
    case False
    have "hcHeap_Less i (go_div (i - 1) 2) w = None"
      using assms(1) by (simp add: hcHeap_Less_def)
    then show ?thesis using u False by (simp add: heap_up.simps [of i w])
  qed
qed

lemma hc_step_inv:
  assumes "hc_inv S w" "pushed x \<inter> set (queue w) = {}" "hc_step x w = Some w'"
  shows "hc_inv (S \<union> pushed x) w'"
proof (cases x)
  case (Push s)
  then show ?thesis using assms hcHeap_Push_inv [of S w s] by auto
next
  case Pop
  then have ne: "queue w \<noteq> []" using assms(3) by (auto simp: hcHeap_Pop_def)
  from hc_inv_Pop [OF assms(1) ne] Pop assms(3) show ?thesis by auto
next
  case (Swap i j)
  then have "in_queue i w" "in_queue j w"
    using assms(3) by (auto simp: hcHeap_Swap_def split: if_splits)
  from hc_inv_Swap [OF assms(1) this] Swap assms(3) show ?thesis by auto
next
  case (HeapPush s)
  then show ?thesis using assms heap_Push_inv [of S w s] by auto
next
  case HeapPop
  have ne: "queue w \<noteq> []"
  proof
    assume "queue w = []"
    then have "heap_Pop w = None"
      by (simp add: heap_Pop_def hcHeap_Swap_def in_queue_def hcHeap_Len_def)
    with HeapPop assms(3) show False by simp
  qed
  from heap_Pop_inv [OF assms(1) ne] HeapPop assms(3) show ?thesis by auto
next
  case (HeapFix i)
  show ?thesis
  proof (cases "in_queue i w")
    case True
    from hc_inv_Fix [OF assms(1) True] HeapFix assms(3) show ?thesis by auto
  next
    case False
    then have "w' = w" using heap_Fix_out_of_range HeapFix assms(3) by auto
    then show ?thesis using assms(1) HeapFix by simp
  qed
next
  case (HeapRemove i)
  then have "in_queue i w"
    using assms(3) heap_Remove_out_of_range [of i w] by (cases "in_queue i w") auto
  from hc_inv_Remove [OF assms(1) this] HeapRemove assms(3) show ?thesis by auto
next
  case (Unregister s)
  then show ?thesis using assms unregister_inv by auto
qed

lemma hc_run_inv:
  "hc_inv S w \<Longrightarrow> pushes_new xs w \<Longrightarrow> hc_run xs w = Some w' \<Longrightarrow>
   hc_inv (S \<union> \<Union> (pushed ` set xs)) w'"
proof (induction xs arbitrary: S w)
  case Nil
  then show ?case by simp
next
  case (Cons x xs)
  from Cons.prems(3) obtain w1 where w1: "hc_step x w = Some w1" "hc_run xs w1 = Some w'"
    by (auto split: option.splits)
  have p: "pushed x \<inter> set (queue w) = {}" "pushes_new xs w1"
    using Cons.prems(2) w1 by simp_all
  have "hc_inv (S \<union> pushed x) w1" using hc_step_inv [OF Cons.prems(1) p(1) w1(1)] .
  from Cons.IH [OF this p(2) w1(2)] show ?case by (simp add: Un_assoc)
qed

section \<open>The health checker's bookkeeping leaves the rest of the world alone\<close>

lemma hc_erase_setNextCheck: "hc_erase (setNextCheck s t w) = hc_erase w"
  by (auto simp: hc_erase_def setNextCheck_def fun_eq_iff)

lemma hcHeap_Swap_erase: "hcHeap_Swap i j w = Some w' \<Longrightarrow> hc_erase w' = hc_erase w"
  by (auto simp: hcHeap_Swap_def Let_def hc_erase_setHcIndex hc_erase_queue split: if_splits)

lemma heap_up_erase: "heap_up j w = Some w' \<Longrightarrow> hc_erase w' = hc_erase w"
proof (induction j w rule: heap_up.induct)
  case (1 j w)
  show ?case
  proof (cases "go_div (j - 1) 2 = j")
    case True
    then show ?thesis using "1.prems" by (simp add: heap_up.simps [of j w])
  next
    case False
    then obtain b where b: "hcHeap_Less j (go_div (j - 1) 2) w = Some b"
      using "1.prems"
      by (cases "hcHeap_Less j (go_div (j - 1) 2) w") (simp_all add: heap_up.simps [of j w])
    show ?thesis
    proof (cases b)
      case False
      then show ?thesis
        using "1.prems" b \<open>go_div (j - 1) 2 \<noteq> j\<close> by (simp add: heap_up.simps [of j w])
    next
      case True
      then obtain w1 where w1: "hcHeap_Swap (go_div (j - 1) 2) j w = Some w1"
        "heap_up (go_div (j - 1) 2) w1 = Some w'"
        using "1.prems" b \<open>go_div (j - 1) 2 \<noteq> j\<close>
        by (cases "hcHeap_Swap (go_div (j - 1) 2) j w") (simp_all add: heap_up.simps [of j w])
      from "1.IH" [OF refl \<open>go_div (j - 1) 2 \<noteq> j\<close> b _ w1(1) w1(2)] True
      have "hc_erase w' = hc_erase w1" by simp
      then show ?thesis using hcHeap_Swap_erase [OF w1(1)] by simp
    qed
  qed
qed

lemma heap_down_loop_erase:
  "heap_down_loop i n w = Some (i', w') \<Longrightarrow> hc_erase w' = hc_erase w"
proof (induction i n w rule: heap_down_loop.induct)
  case (1 i n w)
  let ?j1 = "2 * i + 1"
  show ?case
  proof (cases "?j1 \<ge> n \<or> ?j1 < 0")
    case True
    then show ?thesis using "1.prems" by (simp add: heap_down_loop.simps [of i n w])
  next
    case stop: False
    let ?c = "if ?j1 + 1 < n then hcHeap_Less (?j1 + 1) ?j1 w else Some False"
    obtain r where r: "?c = Some r"
      using "1.prems" stop
      by (cases ?c) (simp_all add: heap_down_loop.simps [of i n w])
    let ?j = "if r then ?j1 + 1 else ?j1"
    obtain b where b: "hcHeap_Less ?j i w = Some b"
      using "1.prems" stop r
      by (cases "hcHeap_Less ?j i w") (simp_all add: heap_down_loop.simps [of i n w] Let_def)
    show ?thesis
    proof (cases b)
      case False
      then show ?thesis
        using "1.prems" stop r b by (simp add: heap_down_loop.simps [of i n w] Let_def)
    next
      case True
      then obtain w1 where w1: "hcHeap_Swap i ?j w = Some w1"
        "heap_down_loop ?j n w1 = Some (i', w')"
        using "1.prems" stop r b
        by (cases "hcHeap_Swap i ?j w") (simp_all add: heap_down_loop.simps [of i n w] Let_def)
      from "1.IH" [OF refl stop r refl b _ w1(1) w1(2)] True
      have "hc_erase w' = hc_erase w1" by simp
      then show ?thesis using hcHeap_Swap_erase [OF w1(1)] by simp
    qed
  qed
qed

lemma heap_down_erase: "heap_down i n w = Some (m, w') \<Longrightarrow> hc_erase w' = hc_erase w"
  using heap_down_loop_erase by (auto simp: heap_down_def)

lemma heap_Fix_erase:
  assumes "heap_Fix i w = Some w'"
  shows "hc_erase w' = hc_erase w"
proof -
  obtain m w1 where d: "heap_down i (hcHeap_Len w) w = Some (m, w1)"
    using assms by (cases "heap_down i (hcHeap_Len w) w") (auto simp: heap_Fix_def)
  have e1: "hc_erase w1 = hc_erase w" using heap_down_erase [OF d] .
  show ?thesis
  proof (cases m)
    case True
    then show ?thesis using assms d e1 by (simp add: heap_Fix_def)
  next
    case False
    then have "heap_up i w1 = Some w'" using assms d by (simp add: heap_Fix_def)
    then show ?thesis using heap_up_erase e1 by metis
  qed
qed

lemma hcHeap_Push_erase: "hc_erase (hcHeap_Push s w) = hc_erase w"
  by (simp add: hcHeap_Push_def Let_def hc_erase_queue hc_erase_setHcIndex)

lemma heap_Push_erase:
  assumes "heap_Push s w = Some w'"
  shows "hc_erase w' = hc_erase w"
proof -
  have "heap_up (hcHeap_Len (hcHeap_Push s w) - 1) (hcHeap_Push s w) = Some w'"
    using assms by (simp add: heap_Push_def Let_def)
  from heap_up_erase [OF this] show ?thesis by (simp add: hcHeap_Push_erase)
qed

lemma hcHeap_Pop_erase: "hcHeap_Pop w = Some (x, w') \<Longrightarrow> hc_erase w' = hc_erase w"
  by (auto simp: hcHeap_Pop_def Let_def hc_erase_queue hc_erase_setHcIndex split: if_splits)

lemma heap_Remove_erase:
  assumes "heap_Remove i w = Some (x, w')"
  shows "hc_erase w' = hc_erase w"
proof (cases "hcHeap_Len w - 1 = i")
  case True
  then have "hcHeap_Pop w = Some (x, w')" using assms by (simp add: heap_Remove_def Let_def)
  then show ?thesis by (rule hcHeap_Pop_erase)
next
  case False
  obtain w1 where w1: "hcHeap_Swap i (hcHeap_Len w - 1) w = Some w1"
    using assms False
    by (cases "hcHeap_Swap i (hcHeap_Len w - 1) w") (simp_all add: heap_Remove_def Let_def)
  obtain m w2 where w2: "heap_down i (hcHeap_Len w - 1) w1 = Some (m, w2)"
    using assms False w1
    by (cases "heap_down i (hcHeap_Len w - 1) w1") (auto simp: heap_Remove_def Let_def)
  have e2: "hc_erase w2 = hc_erase w"
    using hcHeap_Swap_erase [OF w1] heap_down_erase [OF w2] by simp
  show ?thesis
  proof (cases m)
    case True
    then have "hcHeap_Pop w2 = Some (x, w')"
      using assms False w1 w2 by (simp add: heap_Remove_def Let_def)
    then show ?thesis using e2 hcHeap_Pop_erase by metis
  next
    case nm: False
    obtain w3 where w3: "heap_up i w2 = Some w3"
      using assms False w1 w2 nm
      by (cases "heap_up i w2") (simp_all add: heap_Remove_def Let_def)
    then have "hcHeap_Pop w3 = Some (x, w')"
      using assms False w1 w2 nm by (simp add: heap_Remove_def Let_def)
    then show ?thesis using e2 heap_up_erase [OF w3] hcHeap_Pop_erase by metis
  qed
qed

lemma unregister_erase:
  assumes "unregister s w = Some w'"
  shows "hc_erase w' = hc_erase w"
proof (cases "hcIndex (sessions w s) \<ge> 0")
  case False
  then have "w' = snd (setHcIndex s (- 1) w)"
    using assms by (simp add: unregister_def setHcIndex_def)
  then show ?thesis by (simp add: hc_erase_setHcIndex)
next
  case True
  then obtain x where "heap_Remove (hcIndex (sessions w s)) (snd (setHcIndex s (- 1) w))
      = Some (x, w')"
    using assms by (auto simp: unregister_def setHcIndex_def)
  from heap_Remove_erase [OF this] show ?thesis by (simp add: hc_erase_setHcIndex)
qed

lemma scheduledHCLocked_erase:
  assumes "scheduledHCLocked s now r w = Some w'"
  shows "hc_erase w' = hc_erase w"
proof -
  let ?w1 = "setNextCheck s (now + (r + go_div (interval w) 2)) w"
  have i: "\<not> interval w \<le> 0" using assms by (auto simp: scheduledHCLocked_def)
  show ?thesis
  proof (cases "getHcIndex s ?w1 \<noteq> - 1")
    case True
    then have "heap_Fix (getHcIndex s ?w1) ?w1 = Some w'"
      using assms i by (simp add: scheduledHCLocked_def Let_def)
    from heap_Fix_erase [OF this] show ?thesis by (simp add: hc_erase_setNextCheck)
  next
    case False
    then have "w' = ?w1" using assms i by (simp add: scheduledHCLocked_def Let_def)
    then show ?thesis by (simp add: hc_erase_setNextCheck)
  qed
qed

lemma register_erase:
  assumes "register s now r w = Some w'"
  shows "hc_erase w' = hc_erase w"
proof -
  obtain w1 where w1: "scheduledHCLocked s now r w = Some w1" "heap_Push s w1 = Some w'"
    using assms by (cases "scheduledHCLocked s now r w") (simp_all add: register_def)
  show ?thesis using scheduledHCLocked_erase [OF w1(1)] heap_Push_erase [OF w1(2)] by simp
qed

section \<open>Removal from the pool, and sessions that are gone\<close>

lemma sessionPool_remove_reject:
  "numOpened (pool w) \<le> MinOpened (config (pool w)) \<or> getIdleList s w = None \<Longrightarrow>
   sessionPool_remove s True w = (False, w)"
  by (simp add: sessionPool_remove_def)

lemma sessionPool_remove_config:
  "config (pool (snd (sessionPool_remove s e w))) = config (pool w)"
  by (simp add: sessionPool_remove_def Let_def setIdleList_def invalidate_def broadcast_def
      recordStat_def split: option.splits prod.splits)

lemma sessionPool_remove_numOpened:
  "numOpened (pool (snd (sessionPool_remove s e w)))
   = (if fst (sessionPool_remove s e w) then numOpened (pool w) - 1 else numOpened (pool w))"
  by (simp add: sessionPool_remove_def Let_def setIdleList_def invalidate_def broadcast_def
      recordStat_def split: option.splits prod.splits)

lemma word_pred_ge:
  fixes m n :: "64 word"
  assumes "m < n"
  shows "m \<le> n - 1"
proof -
  have lt: "unat m < unat n" using assms by (simp add: word_less_nat_alt)
  then have "n \<noteq> 0" by auto
  then have "unat (n - 1) = unat n - 1" by (rule unat_minus_one)
  with lt show ?thesis by (simp add: word_le_nat_alt)
qed

lemma sessionPool_remove_floor:
  assumes "MinOpened (config (pool w)) \<le> numOpened (pool w)"
  shows "MinOpened (config (pool (snd (sessionPool_remove s True w))))
         \<le> numOpened (pool (snd (sessionPool_remove s True w)))"
proof (cases "numOpened (pool w) \<le> MinOpened (config (pool w))")
  case True
  then show ?thesis using assms by (simp add: sessionPool_remove_reject)
next
  case False
  then have "MinOpened (config (pool w)) < numOpened (pool w)" by simp
  then have "MinOpened (config (pool w)) \<le> numOpened (pool w) - 1" by (rule word_pred_ge)
  then show ?thesis
    using assms by (simp add: sessionPool_remove_config sessionPool_remove_numOpened)
qed

lemma sessionPool_remove_True_dead:
  "fst (sessionPool_remove s e w) \<Longrightarrow> dead s (snd (sessionPool_remove s e w))"
  by (auto simp: sessionPool_remove_def Let_def setIdleList_def invalidate_def broadcast_def
      recordStat_def dead_def split: option.splits prod.splits if_splits)

lemma sessionPool_remove_True_valid:
  "fst (sessionPool_remove s e w) \<Longrightarrow> valid (sessions w s)"
  by (auto simp: sessionPool_remove_def Let_def setIdleList_def invalidate_def broadcast_def
      recordStat_def dead_def split: option.splits prod.splits if_splits)

lemma sessionPool_remove_dead:
  assumes "dead s w"
  shows "sessionPool_remove s e w = (False, w)"
proof -
  have a: "(sessions w s)\<lparr>idleElem := None\<rparr> = sessions w s"
    and b: "(sessions w s)\<lparr>valid := False\<rparr> = sessions w s"
    using assms by (simp_all add: dead_def)
  have c: "\<not> valid (sessions w s)" "idleElem (sessions w s) = None"
    using assms by (simp_all add: dead_def)
  show ?thesis
    by (simp add: sessionPool_remove_def Let_def setIdleList_def invalidate_def
        getIdleList_def a b c)
qed

lemma sessionPool_remove_keeps_dead:
  "dead s w \<Longrightarrow> dead s (snd (sessionPool_remove s' e w))"
  by (auto simp: sessionPool_remove_def Let_def setIdleList_def invalidate_def broadcast_def
      recordStat_def dead_def split: option.splits prod.splits if_splits)

lemma sessionPool_recycle_keeps_dead:
  "dead s w \<Longrightarrow> dead s (snd (sessionPool_recycle s' w))"
  by (auto simp: sessionPool_recycle_def Let_def setIdleList_def broadcast_def dead_def
      isValid_def)

lemma hc_erase_fields:
  assumes "hc_erase w' = hc_erase w"
  shows "valid (sessions w' s) = valid (sessions w s)"
    and "idleElem (sessions w' s) = idleElem (sessions w s)"
    and "tx (sessions w' s) = tx (sessions w s)"
    and "sid (sessions w' s) = sid (sessions w s)"
    and "nextSess w' = nextSess w"
    and "pool w' = pool w"
    and "rpcs w' = rpcs w"
proof -
  have "valid (sessions (hc_erase w') s) = valid (sessions (hc_erase w) s)"
    and "idleElem (sessions (hc_erase w') s) = idleElem (sessions (hc_erase w) s)"
    and "tx (sessions (hc_erase w') s) = tx (sessions (hc_erase w) s)"
    and "sid (sessions (hc_erase w') s) = sid (sessions (hc_erase w) s)"
    and "nextSess (hc_erase w') = nextSess (hc_erase w)"
    and "pool (hc_erase w') = pool (hc_erase w)"
    and "rpcs (hc_erase w') = rpcs (hc_erase w)"
    using assms by simp_all
  then show "valid (sessions w' s) = valid (sessions w s)"
    and "idleElem (sessions w' s) = idleElem (sessions w s)"
    and "tx (sessions w' s) = tx (sessions w s)"
    and "sid (sessions w' s) = sid (sessions w s)"
    and "nextSess w' = nextSess w"
    and "pool w' = pool w"
    and "rpcs w' = rpcs w"
    by (simp_all add: hc_erase_def)
qed

lemma gone_erase:
  assumes "hc_erase w' = hc_erase w"
  shows "gone s w' = gone s w"
  using hc_erase_fields(1,2) [OF assms, of s] hc_erase_fields(5) [OF assms]
  by (simp add: gone_def dead_def)

lemma gone_recycle: "gone s w \<Longrightarrow> gone s (snd (sessionPool_recycle s' w))"
  by (auto simp: sessionPool_recycle_def Let_def setIdleList_def broadcast_def dead_def
      gone_def isValid_def)

lemma gone_remove: "gone s w \<Longrightarrow> gone s (snd (sessionPool_remove s' e w))"
  by (auto simp: sessionPool_remove_def Let_def setIdleList_def invalidate_def broadcast_def
      recordStat_def dead_def gone_def split: option.splits prod.splits if_splits)

lemma gone_delete: "gone s (session_delete s' w) = gone s w"
  by (simp add: session_delete_def gone_def dead_def)

lemma gone_destroy:
  assumes "gone s w" "session_destroy s' e w = Some (b, w')"
  shows "gone s w'"
proof (cases "fst (sessionPool_remove s' e w)")
  case False
  then have "w' = snd (sessionPool_remove s' e w)"
    using assms(2) by (cases "sessionPool_remove s' e w") (simp add: session_destroy_def)
  then show ?thesis using gone_remove [OF assms(1)] by simp
next
  case True
  then obtain w2 where w2: "unregister s' (snd (sessionPool_remove s' e w)) = Some w2"
    "w' = session_delete s' w2"
    using assms(2)
    by (cases "sessionPool_remove s' e w")
       (auto simp: session_destroy_def split: option.splits)
  have "gone s w2"
    using gone_erase [OF unregister_erase [OF w2(1)]] gone_remove [OF assms(1)] by simp
  then show ?thesis using w2(2) by (simp add: gone_delete)
qed

lemma gone_setTransactionID: "gone s (setTransactionID s' t w) = gone s w"
  by (simp add: setTransactionID_def gone_def dead_def)

lemma gone_session_recycle:
  assumes "gone s w" "session_recycle s' w = Some w'"
  shows "gone s w'"
proof -
  let ?w1 = "setTransactionID s' None w"
  have g1: "gone s ?w1" using assms(1) by (simp add: gone_setTransactionID)
  show ?thesis
  proof (cases "fst (sessionPool_recycle s' ?w1)")
    case True
    then have "w' = snd (sessionPool_recycle s' ?w1)"
      using assms(2) by (cases "sessionPool_recycle s' ?w1") (simp add: session_recycle_def)
    then show ?thesis using gone_recycle [OF g1] by simp
  next
    case False
    then obtain b where "session_destroy s' False (snd (sessionPool_recycle s' ?w1)) = Some (b, w')"
      using assms(2) by (cases "sessionPool_recycle s' ?w1") (auto simp: session_recycle_def)
    from gone_destroy [OF gone_recycle [OF g1] this] show ?thesis .
  qed
qed

lemma gone_broadcast: "gone s (broadcast w) = gone s w"
  by (simp add: broadcast_def gone_def dead_def)

lemma gone_takeBudget: "gone s (takeBudget w) = gone s w"
  by (simp add: takeBudget_def recordStat_def Let_def gone_def dead_def)

lemma gone_doneCreate: "gone s (doneCreate d w) = gone s w"
  by (simp add: doneCreate_def recordStat_def Let_def broadcast_def gone_def dead_def)

lemma gone_createSession:
  assumes "gone s w" "createSession a w = Some (r, w')"
  shows "gone s w'"
proof (cases "getRPCClient a")
  case (Some err)
  then show ?thesis using assms by (auto simp: createSession_def gone_doneCreate)
next
  case None
  show ?thesis
  proof (cases "CreateSessionRPC a")
    case (Inl e)
    then have "w' = doneCreate False (w\<lparr>rpcs := rpcs w @ [CreateSession]\<rparr>)"
      using assms(2) None by (simp add: createSession_def Let_def)
    then have "gone s w' = gone s (w\<lparr>rpcs := rpcs w @ [CreateSession]\<rparr>)"
      by (simp add: gone_doneCreate)
    also have "\<dots> = gone s w" by (simp add: gone_def dead_def)
    finally show ?thesis using assms(1) by simp
  next
    case (Inr name)
    let ?w2 = "w\<lparr>rpcs := rpcs w @ [CreateSession],
                 sessions := (sessions w)(nextSess w := new_session name),
                 nextSess := Suc (nextSess w)\<rparr>"
    obtain w3 where w3: "register (nextSess w) (nowScheduled a) (randInt63n a) ?w2 = Some w3"
      "w' = doneCreate True w3"
      using assms(2) None Inr
      by (auto simp: createSession_def Let_def split: option.splits)
    have "gone s ?w2" using assms(1) by (auto simp: gone_def dead_def)
    then have "gone s w3" using gone_erase [OF register_erase [OF w3(1)]] by simp
    then show ?thesis using w3(2) by (simp add: gone_doneCreate)
  qed
qed

lemma gone_prepareForWrite: "gone s (snd (prepareForWrite a s' w)) = gone s w"
  by (auto simp: prepareForWrite_def Let_def setTransactionID_def gone_def dead_def
      split: sum.splits)

lemma gone_isHealthy:
  assumes "gone s w" "isHealthy a s' w = Some (b, w')"
  shows "gone s w'"
proof (cases "getNextCheck s' w + 2 * interval w < nowHealthy a")
  case False
  then show ?thesis using assms by (simp add: isHealthy_def)
next
  case True
  let ?w1 = "w\<lparr>rpcs := rpcs w @ [GetSession (getID s' w)]\<rparr>"
  have g1: "gone s ?w1" using assms(1) by (simp add: gone_def dead_def)
  show ?thesis
  proof (cases "shouldDropSession (ping a)")
    case True
    then obtain b' where "session_destroy s' False ?w1 = Some (b', w')"
      using assms(2) \<open>getNextCheck s' w + 2 * interval w < nowHealthy a\<close>
      by (auto simp: isHealthy_def session_ping_def split: option.splits)
    from gone_destroy [OF g1 this] show ?thesis .
  next
    case False
    then have "scheduledHC s' (nowScheduled a) (randInt63n a) ?w1 = Some w'"
      using assms(2) \<open>getNextCheck s' w + 2 * interval w < nowHealthy a\<close>
      by (auto simp: isHealthy_def session_ping_def split: option.splits)
    then show ?thesis
      using gone_erase [OF scheduledHCLocked_erase] g1 by (simp add: scheduledHC_def)
  qed
qed


lemma gone_take_pop: "gone s (snd (take_pop w)) = gone s w"
  by (simp add: take_pop_def popFront_def Let_def gone_def dead_def split: prod.splits)

lemma gone_takeWrite_pop: "gone s (snd (takeWrite_pop w)) = gone s w"
  by (simp add: takeWrite_pop_def popFront_def Let_def gone_def dead_def split: prod.splits)

lemma gone_setIdleList_None: "gone s w \<Longrightarrow> gone s (snd (setIdleList s' None w))"
  by (auto simp: setIdleList_def gone_def dead_def)

lemma gone_create_or_wait:
  assumes "gone s w" "create_or_wait a w = Some (r, w')"
  shows "gone s w'"
proof (cases "atCapacity w")
  case True
  then have "w' = w" using assms(2) by (cases "ctxDone a") (simp_all add: create_or_wait_def)
  then show ?thesis using assms(1) by simp
next
  case False
  then have c: "(case createSession a (takeBudget w) of
           None \<Rightarrow> None
         | Some (Inl err, w1) \<Rightarrow> Some (Inl (Failed (toSpannerError (Some err))), w1)
         | Some (Inr s, w1) \<Rightarrow> Some (Inr s, w1)) = Some (r, w')"
    using assms(2) by (simp add: create_or_wait_def)
  then obtain r' w1 where c1: "createSession a (takeBudget w) = Some (r', w1)"
    by (cases "createSession a (takeBudget w)") auto
  have "w' = w1" using c c1 by (cases r') simp_all
  moreover have "gone s w1"
    using gone_createSession [OF _ c1] assms(1) by (simp add: gone_takeBudget)
  ultimately show ?thesis by simp
qed

lemma gone_takeWrite_prepare:
  assumes "gone s w" "takeWrite_prepare a s' w = Some (r, w')"
  shows "gone s w'"
proof (cases "isWritePrepared s' w")
  case True
  then show ?thesis using assms by (simp add: takeWrite_prepare_def)
next
  case False
  obtain e w1 where p: "prepareForWrite a s' w = (e, w1)" by (cases "prepareForWrite a s' w")
  have g1: "gone s w1" using assms(1) gone_prepareForWrite [of s a s' w] p by simp
  show ?thesis
  proof (cases e)
    case None
    then have "w' = w1" using assms(2) False p by (simp add: takeWrite_prepare_def)
    then show ?thesis using g1 by simp
  next
    case (Some err)
    then have "(case session_recycle s' w1 of
                None \<Rightarrow> None
              | Some w2 \<Rightarrow> Some (Failed (toSpannerError (Some err)), w2)) = Some (r, w')"
      using assms(2) False p by (simp add: takeWrite_prepare_def)
    then have "session_recycle s' w1 = Some w'"
      by (cases "session_recycle s' w1") simp_all
    from gone_session_recycle [OF g1 this] show ?thesis .
  qed
qed

lemma gone_after_pop:
  assumes "gone s w1"
    and "(case isHealthy a s' (snd (setIdleList s' None w1)) of
            None \<Rightarrow> None
          | Some (healthy, w3) \<Rightarrow> if \<not> healthy then Some (Continue, w3) else k w3)
         = Some (r, w')"
    and "\<And>w3. gone s w3 \<Longrightarrow> k w3 = Some (r, w') \<Longrightarrow> gone s w'"
  shows "gone s w'"
proof -
  obtain b w3 where h: "isHealthy a s' (snd (setIdleList s' None w1)) = Some (b, w3)"
    using assms(2) by (cases "isHealthy a s' (snd (setIdleList s' None w1))") auto
  have g3: "gone s w3"
    using gone_isHealthy [OF gone_setIdleList_None [OF assms(1)] h] .
  show ?thesis
  proof (cases b)
    case False
    then have "w' = w3" using assms(2) h by simp
    then show ?thesis using g3 by simp
  next
    case True
    then have "k w3 = Some (r, w')" using assms(2) h by simp
    then show ?thesis using assms(3) g3 by blast
  qed
qed

lemma gone_after_create:
  assumes "gone s w1"
    and "(case create_or_wait a w1 of
            None \<Rightarrow> None
          | Some (Inl out, w2) \<Rightarrow> Some (out, w2)
          | Some (Inr s', w2) \<Rightarrow> k s' w2) = Some (r, w')"
    and "\<And>s' w2. gone s w2 \<Longrightarrow> k s' w2 = Some (r, w') \<Longrightarrow> gone s w'"
  shows "gone s w'"
proof -
  obtain r' w2 where c: "create_or_wait a w1 = Some (r', w2)"
    using assms(2) by (cases "create_or_wait a w1") auto
  have g2: "gone s w2" using gone_create_or_wait [OF assms(1) c] .
  show ?thesis
  proof (cases r')
    case (Inl out)
    then have "w' = w2" using assms(2) c by simp
    then show ?thesis using g2 by simp
  next
    case (Inr s')
    then have "k s' w2 = Some (r, w')" using assms(2) c by simp
    then show ?thesis using assms(3) g2 by blast
  qed
qed

lemma gone_take_pass:
  assumes "gone s w" "take_pass a w = Some (r, w')"
  shows "gone s w'"
proof (cases "pvalid (pool w)")
  case False
  then show ?thesis using assms by (simp add: take_pass_def)
next
  case True
  obtain so w1 where p: "take_pop w = (so, w1)" by (cases "take_pop w")
  have g1: "gone s w1" using assms(1) gone_take_pop [of s w] p by simp
  show ?thesis
  proof (cases so)
    case None
    then have "(case create_or_wait a w1 of
            None \<Rightarrow> None
          | Some (Inl out, w2) \<Rightarrow> Some (out, w2)
          | Some (Inr s', w2) \<Rightarrow> Some (Handle \<lparr>sh_session = Some s'\<rparr>, w2)) = Some (r, w')"
      using assms(2) True p by (simp add: take_pass_def)
    from gone_after_create [OF g1 this] show ?thesis by simp
  next
    case (Some s')
    then have "(case isHealthy a s' (snd (setIdleList s' None w1)) of
            None \<Rightarrow> None
          | Some (healthy, w3) \<Rightarrow>
              if \<not> healthy then Some (Continue, w3)
              else Some (Handle \<lparr>sh_session = Some s'\<rparr>, w3)) = Some (r, w')"
      using assms(2) True p by (simp add: take_pass_def Let_def)
    from gone_after_pop [OF g1 this] show ?thesis by simp
  qed
qed

lemma gone_takeWriteSession_pass:
  assumes "gone s w" "takeWriteSession_pass a w = Some (r, w')"
  shows "gone s w'"
proof (cases "pvalid (pool w)")
  case False
  then show ?thesis using assms by (simp add: takeWriteSession_pass_def)
next
  case True
  obtain so w1 where p: "takeWrite_pop w = (so, w1)" by (cases "takeWrite_pop w")
  have g1: "gone s w1" using assms(1) gone_takeWrite_pop [of s w] p by simp
  show ?thesis
  proof (cases so)
    case None
    then have "(case create_or_wait a w1 of
            None \<Rightarrow> None
          | Some (Inl out, w2) \<Rightarrow> Some (out, w2)
          | Some (Inr s', w2) \<Rightarrow> takeWrite_prepare a s' w2) = Some (r, w')"
      using assms(2) True p by (simp add: takeWriteSession_pass_def)
    from gone_after_create [OF g1 this] gone_takeWrite_prepare show ?thesis by blast
  next
    case (Some s')
    then have "(case isHealthy a s' (snd (setIdleList s' None w1)) of
            None \<Rightarrow> None
          | Some (healthy, w3) \<Rightarrow>
              if \<not> healthy then Some (Continue, w3)
              else takeWrite_prepare a s' w3) = Some (r, w')"
      using assms(2) True p by (simp add: takeWriteSession_pass_def Let_def)
    from gone_after_pop [OF g1 this] gone_takeWrite_prepare show ?thesis by blast
  qed
qed

lemma gone_replenish_pass:
  assumes "gone s w" "replenish_pass a k w = Some (r, w')"
  shows "gone s w'"
proof (cases "ctxErrSet a \<or> k \<le> numOpened (pool w)")
  case True
  then have "w' = w"
    using assms(2) by (cases "ctxErrSet a") (simp_all add: replenish_pass_def replenish_budget_def)
  then show ?thesis using assms(1) by simp
next
  case False
  then have c0: "(case createSession a (takeBudget w) of
                None \<Rightarrow> None
              | Some (Inl err, w2) \<Rightarrow> Some (True, w2)
              | Some (Inr s, w2) \<Rightarrow>
                  (let w3 = (if shouldPrepareWrite a then snd (prepareForWrite a s w2) else w2)
                   in Some (True, snd (sessionPool_recycle s w3)))) = Some (r, w')"
    using assms(2) by (simp add: replenish_pass_def replenish_budget_def)
  then obtain r' w2 where c: "createSession a (takeBudget w) = Some (r', w2)"
    by (cases "createSession a (takeBudget w)") auto
  have g2: "gone s w2"
    using gone_createSession [OF _ c] assms(1) by (simp add: gone_takeBudget)
  show ?thesis
  proof (cases r')
    case (Inl err)
    then have "w' = w2" using c0 c by simp
    then show ?thesis using g2 by simp
  next
    case (Inr s')
    then have w': "w' = snd (sessionPool_recycle s'
        (if shouldPrepareWrite a then snd (prepareForWrite a s' w2) else w2))"
      using c0 c by (simp add: Let_def)
    have "gone s (if shouldPrepareWrite a then snd (prepareForWrite a s' w2) else w2)"
      using g2 by (simp add: gone_prepareForWrite)
    from gone_recycle [OF this] show ?thesis using w' by simp
  qed
qed

lemma gone_markDone: "gone s (markDone s' w) = gone s w"
  by (simp add: markDone_def gone_def dead_def)

lemma gone_shrink_pass:
  assumes "gone s w" "shrink_pass a k w = Some (r, w')"
  shows "gone s w'"
proof (cases "ctxErrSet a \<or> k \<ge> numOpened (pool w)")
  case True
  then have "w' = w" using assms(2) by (cases "ctxErrSet a") (simp_all add: shrink_pass_def)
  then show ?thesis using assms(1) by simp
next
  case False
  let ?so = "if list_Len (idleList (pool w)) > 0
             then Some (snd (hd (idleList (pool w))))
             else if list_Len (idleWriteList (pool w)) > 0
             then Some (snd (hd (idleWriteList (pool w))))
             else None"
  have c: "(case ?so of
              None \<Rightarrow> Some (False, w)
            | Some s \<Rightarrow>
                (case session_destroy s True w of
                   None \<Rightarrow> None
                 | Some (_, w1) \<Rightarrow> Some (True, w1))) = Some (r, w')"
    using assms(2) False by (simp add: shrink_pass_def Let_def)
  show ?thesis
  proof (cases ?so)
    case None
    then have "w' = w" using c by simp
    then show ?thesis using assms(1) by simp
  next
    case (Some s')
    then have "(case session_destroy s' True w of
                   None \<Rightarrow> None
                 | Some (_, w1) \<Rightarrow> Some (True, w1)) = Some (r, w')"
      using c by simp
    then obtain b where "session_destroy s' True w = Some (b, w')"
      by (cases "session_destroy s' True w") auto
    from gone_destroy [OF assms(1) this] show ?thesis .
  qed
qed

lemma gone_healthCheck:
  assumes "gone s w" "healthCheck a s' w = Some w'"
  shows "gone s w'"
proof -
  have d: "gone s v'"
    if gv: "gone s v"
      and cv: "(case session_destroy s' False v of
              None \<Rightarrow> None
            | Some (_, w1) \<Rightarrow> Some (markDone s' w1)) = Some v'" for v v'
  proof -
    obtain b w1 where w1: "session_destroy s' False v = Some (b, w1)" "v' = markDone s' w1"
      using cv by (cases "session_destroy s' False v") auto
    from gone_destroy [OF gv w1(1)] w1(2) show ?thesis by (simp add: gone_markDone)
  qed
  show ?thesis
  proof (cases "pvalid (pool w)")
    case False
    then show ?thesis using assms d [of w w'] by (simp add: healthCheck_def)
  next
    case True
    let ?w1 = "w\<lparr>rpcs := rpcs w @ [GetSession (getID s' w)]\<rparr>"
    have g1: "gone s ?w1" using assms(1) by (simp add: gone_def dead_def)
    show ?thesis
    proof (cases "shouldDropSession (ping a)")
      case True
      then show ?thesis
        using assms(2) \<open>pvalid (pool w)\<close> d [OF g1, of w']
        by (simp add: healthCheck_def session_ping_def)
    next
      case False
      then have "w' = markDone s' ?w1"
        using assms(2) \<open>pvalid (pool w)\<close> by (simp add: healthCheck_def session_ping_def)
      then show ?thesis using g1 by (simp add: gone_markDone)
    qed
  qed
qed

lemma gone_checking:
  "gone s (w\<lparr>sessions := (sessions w)(s' := (sessions w s')\<lparr>checkingHealth := b\<rparr>)\<rparr>) = gone s w"
  by (simp add: gone_def dead_def)

lemma gone_getNextForPing:
  assumes "gone s w" "getNextForPing a w = Some (r, w')"
  shows "gone s w'"
proof (cases "hcHeap_Len w \<le> 0
    \<or> (getNextCheck (queue w ! 0) w > nowHealthy a \<and> pvalid (pool w))")
  case True
  then have "w' = w" using assms(2) by (auto simp: getNextForPing_def Let_def split: if_splits)
  then show ?thesis using assms(1) by simp
next
  case False
  let ?s = "queue w ! 0"
  have c: "(case scheduledHCLocked ?s (nowScheduled a) (randInt63n a) w of
                 None \<Rightarrow> None
               | Some w1 \<Rightarrow>
                   if \<not> checkingHealth (sessions w1 ?s)
                   then Some (Some ?s,
                          w1\<lparr>sessions :=
                               (sessions w1)(?s := (sessions w1 ?s)\<lparr>checkingHealth := True\<rparr>)\<rparr>)
                   else Some (None, w1)) = Some (r, w')"
    using assms(2) False by (auto simp: getNextForPing_def Let_def split: if_splits)
  then obtain w1 where w1: "scheduledHCLocked ?s (nowScheduled a) (randInt63n a) w = Some w1"
    by (cases "scheduledHCLocked ?s (nowScheduled a) (randInt63n a) w") auto
  have g1: "gone s w1" using gone_erase [OF scheduledHCLocked_erase [OF w1]] assms(1) by simp
  show ?thesis
  proof (cases "checkingHealth (sessions w1 ?s)")
    case True
    then have "w' = w1" using c w1 by simp
    then show ?thesis using g1 by simp
  next
    case False
    then have "w' = w1\<lparr>sessions :=
        (sessions w1)(?s := (sessions w1 ?s)\<lparr>checkingHealth := True\<rparr>)\<rparr>"
      using c w1 by simp
    then show ?thesis using g1 by (simp add: gone_checking)
  qed
qed

lemma gone_getNextForTx: "gone s (snd (getNextForTx a w)) = gone s w"
  by (simp add: getNextForTx_def popFront_def Let_def gone_def dead_def split: prod.splits)

lemma gone_worker_prepare: "gone s w \<Longrightarrow> gone s (worker_prepare a ws w)"
proof -
  assume g: "gone s w"
  let ?w2 = "snd (sessionPool_recycle ws (snd (prepareForWrite a ws w)))"
  have g2: "gone s ?w2" using g gone_recycle by (simp add: gone_prepareForWrite)
  have "gone s (?w2\<lparr>pool := (pool ?w2)\<lparr>prepareReqs := prepareReqs (pool ?w2) - 1\<rparr>\<rparr>)
        = gone s ?w2"
    by (simp add: gone_def dead_def)
  then show ?thesis using g2 by (simp add: worker_prepare_def Let_def gone_markDone)
qed

lemma gone_worker_pass:
  assumes "gone s w" "worker_pass a w = Some w'"
  shows "gone s w'"
proof -
  obtain ws w1 where t: "getNextForTx a w = (ws, w1)" by (cases "getNextForTx a w")
  have g1: "gone s w1" using assms(1) gone_getNextForTx [of s a w] t by simp
  let ?w2 = "case ws of None \<Rightarrow> w1 | Some s' \<Rightarrow> worker_prepare a s' w1"
  have g2: "gone s ?w2" using g1 gone_worker_prepare by (cases ws) simp_all
  have c: "(case getNextForPing a ?w2 of
           None \<Rightarrow> None
         | Some (None, w3) \<Rightarrow> Some w3
         | Some (Some rs, w3) \<Rightarrow> healthCheck a rs w3) = Some w'"
    using assms(2) t by (simp add: worker_pass_def Let_def)
  then obtain r w3 where p: "getNextForPing a ?w2 = Some (r, w3)"
    by (cases "getNextForPing a ?w2") auto
  have g3: "gone s w3" using gone_getNextForPing [OF g2 p] .
  show ?thesis
  proof (cases r)
    case None
    then have "w' = w3" using c p by simp
    then show ?thesis using g3 by simp
  next
    case (Some rs)
    then have "healthCheck a rs w3 = Some w'" using c p by simp
    from gone_healthCheck [OF g3 this] show ?thesis .
  qed
qed

lemma gone_pool_step:
  assumes "gone s w" "pool_step x w = Some w'"
  shows "gone s w'"
proof (cases x)
  case (Recycle s')
  then show ?thesis using assms gone_recycle by auto
next
  case (Remove s' e)
  then show ?thesis using assms gone_remove by auto
next
  case (SessionRecycle s')
  then show ?thesis using assms gone_session_recycle by auto
next
  case (Destroy s' e)
  then show ?thesis using assms gone_destroy by auto
next
  case (TakePass a)
  then show ?thesis using assms gone_take_pass by auto
next
  case (TakeWritePass a)
  then show ?thesis using assms gone_takeWriteSession_pass by auto
next
  case (ReplenishPass a k)
  then show ?thesis using assms gone_replenish_pass by auto
next
  case (ShrinkPass a k)
  then show ?thesis using assms gone_shrink_pass by auto
next
  case (WorkerPass a)
  then show ?thesis using assms gone_worker_pass by auto
qed

lemma gone_pool_run: "gone s w \<Longrightarrow> pool_run xs w = Some w' \<Longrightarrow> gone s w'"
proof (induction xs arbitrary: w)
  case Nil
  then show ?case by simp
next
  case (Cons x xs)
  then obtain w1 where "pool_step x w = Some w1" "pool_run xs w1 = Some w'"
    by (auto split: option.splits)
  then show ?case using Cons.IH gone_pool_step [OF Cons.prems(1)] by blast
qed

lemma take_pass_pool0:
  "take_pass answers0 pool0 = Some (Handle \<lparr>sh_session = Some 0\<rparr>, pool1)"
  by (simp add: take_pass_def pool0_def pool1_def answers0_def take_pop_def list_Len_def
      create_or_wait_def atCapacity_def cfg0_def takeBudget_def recordStat_def createSession_def
      new_session_def register_def scheduledHCLocked_def Let_def go_div_def setNextCheck_def
      getHcIndex_def heap_Fix_def heap_down_def heap_down_loop.simps hcHeap_Len_def
      heap_up.simps heap_Push_def hcHeap_Push_def setHcIndex_def doneCreate_def broadcast_def)

section \<open>The claims on the pool and the handle\<close>

text \<open>
  Claim C4. \<^verbatim>\<open>p.recycle(s)\<close> returns false and changes nothing when the session or the pool is
  invalid. Otherwise it returns true; the session goes to the back of the write-idle list
  when it carries a transaction id and to the back of the read-idle list when it does not,
  the other list staying as it was; the session is linked to its new list element; and the
  wake channel is closed and replaced by a new one.
\<close>

theorem sessionPool_recycle_rule:
  "(\<not> isValid s w \<or> \<not> pvalid (pool w) \<longrightarrow> sessionPool_recycle s w = (False, w))
   \<and> (isValid s w \<and> pvalid (pool w) \<longrightarrow>
        fst (sessionPool_recycle s w) = True
        \<and> (isWritePrepared s w \<longrightarrow>
             idleWriteList (pool (snd (sessionPool_recycle s w)))
               = idleWriteList (pool w) @ [(nextElem w, s)]
             \<and> idleList (pool (snd (sessionPool_recycle s w))) = idleList (pool w))
        \<and> (\<not> isWritePrepared s w \<longrightarrow>
             idleList (pool (snd (sessionPool_recycle s w)))
               = idleList (pool w) @ [(nextElem w, s)]
             \<and> idleWriteList (pool (snd (sessionPool_recycle s w))) = idleWriteList (pool w))
        \<and> getIdleList s (snd (sessionPool_recycle s w)) = Some (nextElem w)
        \<and> closedChans (snd (sessionPool_recycle s w))
            = insert (mayGetSession (pool w)) (closedChans w)
        \<and> mayGetSession (pool (snd (sessionPool_recycle s w))) = nextChan w
        \<and> nextChan (snd (sessionPool_recycle s w)) = Suc (nextChan w)
        \<and> numOpened (pool (snd (sessionPool_recycle s w))) = numOpened (pool w))"
  by (simp add: sessionPool_recycle_def Let_def setIdleList_def broadcast_def getIdleList_def
      isWritePrepared_def isValid_def)

theorem sessionPool_recycle_rule_witness:
  "isValid 0 pool1 \<and> pvalid (pool pool1) \<and> \<not> isWritePrepared 0 pool1
   \<and> fst (sessionPool_recycle 0 pool1)
   \<and> idleList (pool (snd (sessionPool_recycle 0 pool1))) = [(0, 0)]
   \<and> idleWriteList (pool (snd (sessionPool_recycle 0 pool1))) = []
   \<and> closedChans (snd (sessionPool_recycle 0 pool1)) = {0, 1}
   \<and> mayGetSession (pool (snd (sessionPool_recycle 0 pool1))) = 2"
proof -
  have h: "isValid 0 pool1 \<and> pvalid (pool pool1)" "\<not> isWritePrepared 0 pool1"
    by (simp_all add: isValid_def isWritePrepared_def pool1_def)
  have v: "nextElem pool1 = 0" "idleList (pool pool1) = []" "idleWriteList (pool pool1) = []"
    "closedChans pool1 = {0}" "mayGetSession (pool pool1) = 1" "nextChan pool1 = 2"
    by (simp_all add: pool1_def)
  show ?thesis
    using h sessionPool_recycle_rule [of 0 pool1] v by auto
qed

lemma isHealthy_True_idleElem:
  assumes "isHealthy a s w = Some (True, w')"
  shows "idleElem (sessions w' x) = idleElem (sessions w x)"
proof (cases "getNextCheck s w + 2 * interval w < nowHealthy a")
  case False
  then show ?thesis using assms by (simp add: isHealthy_def)
next
  case True
  let ?w1 = "w\<lparr>rpcs := rpcs w @ [GetSession (getID s w)]\<rparr>"
  have nd: "\<not> shouldDropSession (ping a)"
  proof
    assume "shouldDropSession (ping a)"
    then show False
      using assms True
      by (cases "session_destroy s False ?w1") (auto simp: isHealthy_def session_ping_def)
  qed
  then have "scheduledHCLocked s (nowScheduled a) (randInt63n a) ?w1 = Some w'"
    using assms True
    by (cases "scheduledHC s (nowScheduled a) (randInt63n a) ?w1")
       (auto simp: isHealthy_def session_ping_def scheduledHC_def)
  from hc_erase_fields(2) [OF scheduledHCLocked_erase [OF this], of x] show ?thesis by simp
qed

lemma createSession_Inr_idleElem:
  assumes "createSession a w = Some (Inr s, w')"
  shows "idleElem (sessions w' s) = None"
proof -
  have n: "getRPCClient a = None"
    using assms by (cases "getRPCClient a") (simp_all add: createSession_def)
  then obtain name where name: "CreateSessionRPC a = Inr name"
    using assms by (cases "CreateSessionRPC a") (simp_all add: createSession_def Let_def)
  let ?w2 = "w\<lparr>rpcs := rpcs w @ [CreateSession],
               sessions := (sessions w)(nextSess w := new_session name),
               nextSess := Suc (nextSess w)\<rparr>"
  obtain w3 where w3: "register (nextSess w) (nowScheduled a) (randInt63n a) ?w2 = Some w3"
    "w' = doneCreate True w3" "s = nextSess w"
    using assms n name
    by (cases "register (nextSess w) (nowScheduled a) (randInt63n a) ?w2")
       (simp_all add: createSession_def Let_def)
  have "idleElem (sessions w3 s) = idleElem (sessions ?w2 s)"
    using hc_erase_fields(2) [OF register_erase [OF w3(1)], of s] .
  then have "idleElem (sessions w3 s) = None" using w3(3) by (simp add: new_session_def)
  then show ?thesis using w3(2) by (simp add: doneCreate_def broadcast_def Let_def)
qed

lemma create_or_wait_Inr_idleElem:
  assumes "create_or_wait a w = Some (Inr s, w')"
  shows "idleElem (sessions w' s) = None"
proof -
  have nc: "\<not> atCapacity w"
    using assms by (cases "ctxDone a") (auto simp: create_or_wait_def)
  then have c: "(case createSession a (takeBudget w) of
           None \<Rightarrow> None
         | Some (Inl err, w1) \<Rightarrow> Some (Inl (Failed (toSpannerError (Some err))), w1)
         | Some (Inr s, w1) \<Rightarrow> Some (Inr s, w1)) = Some (Inr s, w')"
    using assms by (simp add: create_or_wait_def)
  then obtain r' w1 where c1: "createSession a (takeBudget w) = Some (r', w1)"
    by (cases "createSession a (takeBudget w)") auto
  then have "r' = Inr s \<and> w1 = w'" using c by (cases r') simp_all
  then show ?thesis using createSession_Inr_idleElem c1 by blast
qed

lemma prepareForWrite_idleElem:
  "idleElem (sessions (snd (prepareForWrite a s w)) x) = idleElem (sessions w x)"
  by (auto simp: prepareForWrite_def Let_def setTransactionID_def split: sum.splits)

lemma takeWrite_prepare_Handle:
  assumes "takeWrite_prepare a s w = Some (Handle h, w')"
  shows "sh_session h = Some s \<and> idleElem (sessions w' s) = idleElem (sessions w s)"
proof (cases "isWritePrepared s w")
  case True
  then show ?thesis using assms by (auto simp: takeWrite_prepare_def)
next
  case False
  obtain e w1 where p: "prepareForWrite a s w = (e, w1)" by (cases "prepareForWrite a s w")
  show ?thesis
  proof (cases e)
    case None
    then have "h = \<lparr>sh_session = Some s\<rparr> \<and> w' = w1"
      using assms False p by (simp add: takeWrite_prepare_def)
    then show ?thesis using prepareForWrite_idleElem [of a s w s] p by simp
  next
    case (Some err)
    then show ?thesis
      using assms False p
      by (cases "session_recycle s w1") (simp_all add: takeWrite_prepare_def)
  qed
qed

lemma take_pass_Handle_unlinked:
  assumes "take_pass a w = Some (Handle h, w')"
  shows "\<exists>s. sh_session h = Some s \<and> getIdleList s w' = None"
proof -
  have v: "pvalid (pool w)" using assms by (cases "pvalid (pool w)") (simp_all add: take_pass_def)
  obtain so w1 where p: "take_pop w = (so, w1)" by (cases "take_pop w")
  show ?thesis
  proof (cases so)
    case None
    then have c: "(case create_or_wait a w1 of
            None \<Rightarrow> None
          | Some (Inl out, w2) \<Rightarrow> Some (out, w2)
          | Some (Inr s', w2) \<Rightarrow> Some (Handle \<lparr>sh_session = Some s'\<rparr>, w2))
         = Some (Handle h, w')"
      using assms v p by (simp add: take_pass_def)
    then obtain r' w2 where c1: "create_or_wait a w1 = Some (r', w2)"
      by (cases "create_or_wait a w1") auto
    have no_handle: "\<And>out. create_or_wait a w1 = Some (Inl out, w2) \<Longrightarrow> out \<noteq> Handle h"
      by (auto simp: create_or_wait_def split: if_splits option.splits sum.splits prod.splits)
    show ?thesis
    proof (cases r')
      case (Inl out)
      then show ?thesis using c c1 no_handle by auto
    next
      case (Inr s')
      then have "h = \<lparr>sh_session = Some s'\<rparr>" "w' = w2" using c c1 by simp_all
      then show ?thesis
        using create_or_wait_Inr_idleElem c1 Inr by (auto simp: getIdleList_def)
    qed
  next
    case (Some s')
    let ?w2 = "snd (setIdleList s' None w1)"
    have c: "(case isHealthy a s' ?w2 of
            None \<Rightarrow> None
          | Some (healthy, w3) \<Rightarrow>
              if \<not> healthy then Some (Continue, w3)
              else Some (Handle \<lparr>sh_session = Some s'\<rparr>, w3)) = Some (Handle h, w')"
      using assms v p Some by (simp add: take_pass_def Let_def)
    then obtain b w3 where h: "isHealthy a s' ?w2 = Some (b, w3)"
      by (cases "isHealthy a s' ?w2") auto
    then have "b" "h = \<lparr>sh_session = Some s'\<rparr>" "w' = w3"
      using c by (cases b; simp)+
    then show ?thesis
      using isHealthy_True_idleElem [of a s' ?w2 w' s'] h
      by (simp add: getIdleList_def setIdleList_def)
  qed
qed

lemma takeWriteSession_pass_Handle_unlinked:
  assumes "takeWriteSession_pass a w = Some (Handle h, w')"
  shows "\<exists>s. sh_session h = Some s \<and> getIdleList s w' = None"
proof -
  have v: "pvalid (pool w)"
    using assms by (cases "pvalid (pool w)") (simp_all add: takeWriteSession_pass_def)
  obtain so w1 where p: "takeWrite_pop w = (so, w1)" by (cases "takeWrite_pop w")
  show ?thesis
  proof (cases so)
    case None
    then have c: "(case create_or_wait a w1 of
            None \<Rightarrow> None
          | Some (Inl out, w2) \<Rightarrow> Some (out, w2)
          | Some (Inr s', w2) \<Rightarrow> takeWrite_prepare a s' w2) = Some (Handle h, w')"
      using assms v p by (simp add: takeWriteSession_pass_def)
    then obtain r' w2 where c1: "create_or_wait a w1 = Some (r', w2)"
      by (cases "create_or_wait a w1") auto
    have no_handle: "\<And>out. create_or_wait a w1 = Some (Inl out, w2) \<Longrightarrow> out \<noteq> Handle h"
      by (auto simp: create_or_wait_def split: if_splits option.splits sum.splits prod.splits)
    show ?thesis
    proof (cases r')
      case (Inl out)
      then show ?thesis using c c1 no_handle by auto
    next
      case (Inr s')
      then have "takeWrite_prepare a s' w2 = Some (Handle h, w')" using c c1 by simp
      from takeWrite_prepare_Handle [OF this] show ?thesis
        using create_or_wait_Inr_idleElem c1 Inr by (auto simp: getIdleList_def)
    qed
  next
    case (Some s')
    let ?w2 = "snd (setIdleList s' None w1)"
    have c: "(case isHealthy a s' ?w2 of
            None \<Rightarrow> None
          | Some (healthy, w3) \<Rightarrow>
              if \<not> healthy then Some (Continue, w3)
              else takeWrite_prepare a s' w3) = Some (Handle h, w')"
      using assms v p Some by (simp add: takeWriteSession_pass_def Let_def)
    then obtain b w3 where h: "isHealthy a s' ?w2 = Some (b, w3)"
      by (cases "isHealthy a s' ?w2") auto
    then have b: "b" and t: "takeWrite_prepare a s' w3 = Some (Handle h, w')"
      using c by (cases b; simp)+
    have "idleElem (sessions w3 s') = None"
      using isHealthy_True_idleElem [of a s' ?w2 w3 s'] h b by (simp add: setIdleList_def)
    then show ?thesis
      using takeWrite_prepare_Handle [OF t] by (simp add: getIdleList_def)
  qed
qed

text \<open>
  Claim C10. Once \<^verbatim>\<open>remove\<close> has returned true for an allocated session, which it does only
  for a session that was valid, decrementing \<^verbatim>\<open>numOpened\<close> by one, then after any sequence
  of operations on the pool that does not panic every further \<^verbatim>\<open>remove\<close> and every further
  \<^verbatim>\<open>destroy\<close> of that session returns false and leaves the whole world, and so \<^verbatim>\<open>numOpened\<close>,
  both idle lists and the wake channel, as it was.
\<close>

theorem sessionPool_remove_at_most_once:
  assumes "fst (sessionPool_remove s e w)" and "s < nextSess w"
  shows "valid (sessions w s)
     \<and> numOpened (pool (snd (sessionPool_remove s e w))) = numOpened (pool w) - 1
     \<and> (\<forall>xs w2. pool_run xs (snd (sessionPool_remove s e w)) = Some w2 \<longrightarrow>
           (\<forall>e'. sessionPool_remove s e' w2 = (False, w2)
                \<and> session_destroy s e' w2 = Some (False, w2)))"
proof -
  let ?w1 = "snd (sessionPool_remove s e w)"
  have "nextSess ?w1 = nextSess w"
    by (simp add: sessionPool_remove_def Let_def setIdleList_def invalidate_def broadcast_def
        recordStat_def split: option.splits prod.splits)
  then have g1: "gone s ?w1"
    using assms sessionPool_remove_True_dead [of s e w] by (simp add: gone_def)
  have later: "\<And>xs w2 e'. pool_run xs ?w1 = Some w2 \<Longrightarrow>
      sessionPool_remove s e' w2 = (False, w2) \<and> session_destroy s e' w2 = Some (False, w2)"
  proof -
    fix xs w2 e' assume "pool_run xs ?w1 = Some w2"
    then have "gone s w2" using gone_pool_run [OF g1] by blast
    then have "sessionPool_remove s e' w2 = (False, w2)"
      using sessionPool_remove_dead by (simp add: gone_def)
    then show "sessionPool_remove s e' w2 = (False, w2)
        \<and> session_destroy s e' w2 = Some (False, w2)"
      by (simp add: session_destroy_def)
  qed
  show ?thesis
    using assms(1) sessionPool_remove_True_valid [of s e w]
      sessionPool_remove_numOpened [of s e w] later by auto
qed

theorem sessionPool_remove_at_most_once_witness:
  "fst (sessionPool_remove 0 False pool1) \<and> (0::nat) < nextSess pool1
   \<and> numOpened (pool (snd (sessionPool_remove 0 False pool1))) = 0
   \<and> pool_run [Recycle 0] (snd (sessionPool_remove 0 False pool1))
       = Some (snd (sessionPool_remove 0 False pool1))
   \<and> sessionPool_remove 0 True (snd (sessionPool_remove 0 False pool1))
       = (False, snd (sessionPool_remove 0 False pool1))
   \<and> session_destroy 0 False (snd (sessionPool_remove 0 False pool1))
       = Some (False, snd (sessionPool_remove 0 False pool1))"
proof -
  have a: "fst (sessionPool_remove 0 False pool1)" "(0::nat) < nextSess pool1"
    "numOpened (pool pool1) = 1"
    by (simp_all add: sessionPool_remove_def pool1_def Let_def setIdleList_def invalidate_def)
  have r: "pool_run [Recycle 0] (snd (sessionPool_remove 0 False pool1))
       = Some (snd (sessionPool_remove 0 False pool1))"
    by (simp add: sessionPool_remove_def pool1_def Let_def setIdleList_def invalidate_def
        sessionPool_recycle_def isValid_def broadcast_def recordStat_def)
  have t: "numOpened (pool (snd (sessionPool_remove 0 False pool1))) = numOpened (pool pool1) - 1
     \<and> (\<forall>xs w2. pool_run xs (snd (sessionPool_remove 0 False pool1)) = Some w2 \<longrightarrow>
           (\<forall>e'. sessionPool_remove 0 e' w2 = (False, w2)
                \<and> session_destroy 0 e' w2 = Some (False, w2)))"
    using sessionPool_remove_at_most_once [OF a(1) a(2)] by blast
  then have k: "sessionPool_remove 0 True (snd (sessionPool_remove 0 False pool1))
       = (False, snd (sessionPool_remove 0 False pool1))
     \<and> session_destroy 0 False (snd (sessionPool_remove 0 False pool1))
       = Some (False, snd (sessionPool_remove 0 False pool1))"
    using r by blast
  have n: "numOpened (pool (snd (sessionPool_remove 0 False pool1))) = 0"
    using t a(3) by simp
  show ?thesis using a(1) a(2) n r k by blast
qed

lemma sessionHandle_nil:
  assumes "sh_session sh = None"
  shows "sessionHandle_recycle sh w = Some (sh, w)"
    and "sessionHandle_destroy sh w = Some (sh, w)"
    and "sessionHandle_getID sh w = []"
proof -
  have "sh\<lparr>sh_session := None\<rparr> = sh" using assms by simp
  then show "sessionHandle_destroy sh w = Some (sh, w)"
    using assms by (simp add: sessionHandle_destroy_def Let_def)
  show "sessionHandle_recycle sh w = Some (sh, w)"
    using assms by (simp add: sessionHandle_recycle_def)
  show "sessionHandle_getID sh w = []"
    using assms by (simp add: sessionHandle_getID_def)
qed

lemma sessionHandle_recycle_nil:
  "sessionHandle_recycle sh w = Some (sh', w') \<Longrightarrow> sh_session sh' = None"
  by (cases "sh_session sh")
     (auto simp: sessionHandle_recycle_def split: option.splits)

lemma sessionHandle_destroy_nil:
  "sessionHandle_destroy sh w = Some (sh', w') \<Longrightarrow> sh_session sh' = None"
  by (cases "sh_session sh")
     (auto simp: sessionHandle_destroy_def Let_def split: option.splits)

text \<open>
  Claim C6. After a \<^verbatim>\<open>recycle\<close> or a \<^verbatim>\<open>destroy\<close> of a handle has returned, the handle holds
  no session; a further \<^verbatim>\<open>recycle\<close> or \<^verbatim>\<open>destroy\<close> changes neither the handle nor the world,
  and \<^verbatim>\<open>getID\<close> returns the empty string. Two calls of \<^verbatim>\<open>recycle\<close> in a row are one call.
\<close>

theorem sessionHandle_idempotent:
  "(sessionHandle_recycle sh w = Some (sh', w') \<or> sessionHandle_destroy sh w = Some (sh', w')
      \<longrightarrow> sh_session sh' = None
         \<and> sessionHandle_recycle sh' w' = Some (sh', w')
         \<and> sessionHandle_destroy sh' w' = Some (sh', w')
         \<and> sessionHandle_getID sh' w' = []
         \<and> sessionHandle_getID sh' w'' = [])
   \<and> (case sessionHandle_recycle sh w of
         None \<Rightarrow> None
       | Some (sh1, w1) \<Rightarrow> sessionHandle_recycle sh1 w1) = sessionHandle_recycle sh w"
proof -
  have "sessionHandle_recycle sh w = Some (sh', w') \<or> sessionHandle_destroy sh w = Some (sh', w')
      \<Longrightarrow> sh_session sh' = None"
    using sessionHandle_recycle_nil sessionHandle_destroy_nil by blast
  moreover have "(case sessionHandle_recycle sh w of
         None \<Rightarrow> None
       | Some (sh1, w1) \<Rightarrow> sessionHandle_recycle sh1 w1) = sessionHandle_recycle sh w"
  proof (cases "sessionHandle_recycle sh w")
    case None
    then show ?thesis by simp
  next
    case (Some r)
    obtain sh1 w1 where r: "r = (sh1, w1)" by (cases r)
    then have "sh_session sh1 = None" using Some sessionHandle_recycle_nil by blast
    then show ?thesis using Some r sessionHandle_nil(1) by simp
  qed
  ultimately show ?thesis using sessionHandle_nil by blast
qed


theorem sessionHandle_idempotent_witness:
  "sessionHandle_recycle \<lparr>sh_session = Some 0\<rparr> pool1
     = Some (\<lparr>sh_session = None\<rparr>,
             snd (sessionPool_recycle 0 (setTransactionID 0 None pool1)))
   \<and> sessionHandle_recycle \<lparr>sh_session = None\<rparr>
         (snd (sessionPool_recycle 0 (setTransactionID 0 None pool1)))
     = Some (\<lparr>sh_session = None\<rparr>,
             snd (sessionPool_recycle 0 (setTransactionID 0 None pool1)))
   \<and> sessionHandle_destroy \<lparr>sh_session = None\<rparr>
         (snd (sessionPool_recycle 0 (setTransactionID 0 None pool1)))
     = Some (\<lparr>sh_session = None\<rparr>,
             snd (sessionPool_recycle 0 (setTransactionID 0 None pool1)))
   \<and> sessionHandle_getID \<lparr>sh_session = None\<rparr>
         (snd (sessionPool_recycle 0 (setTransactionID 0 None pool1))) = []
   \<and> sessionHandle_getID \<lparr>sh_session = Some 0\<rparr> pool1 = ''s0''"
proof -
  have f: "fst (sessionPool_recycle 0 (setTransactionID 0 None pool1))"
    by (simp add: sessionPool_recycle_def setTransactionID_def isValid_def pool1_def)
  have a: "sessionHandle_recycle \<lparr>sh_session = Some 0\<rparr> pool1
     = Some (\<lparr>sh_session = None\<rparr>,
             snd (sessionPool_recycle 0 (setTransactionID 0 None pool1)))"
    using f
    by (cases "sessionPool_recycle 0 (setTransactionID 0 None pool1)")
       (simp add: sessionHandle_recycle_def session_recycle_def Let_def)
  have g: "sessionHandle_getID \<lparr>sh_session = Some 0\<rparr> pool1 = ''s0''"
    by (simp add: sessionHandle_getID_def getID_def pool1_def)
  show ?thesis
    using a g
      sessionHandle_idempotent [of "\<lparr>sh_session = Some 0\<rparr>" pool1 "\<lparr>sh_session = None\<rparr>"
        "snd (sessionPool_recycle 0 (setTransactionID 0 None pool1))"
        "snd (sessionPool_recycle 0 (setTransactionID 0 None pool1))"]
    by blast
qed

section \<open>The acquisition loop\<close>

lemma session_destroy_invalid:
  assumes "session_destroy s False w = Some (b, w')"
  shows "\<not> valid (sessions w' s)"
proof -
  obtain ok w1 where r: "sessionPool_remove s False w = (ok, w1)"
    by (cases "sessionPool_remove s False w")
  have v1: "\<not> valid (sessions w1 s)"
    using r
    by (auto simp: sessionPool_remove_def Let_def setIdleList_def invalidate_def broadcast_def
        recordStat_def split: option.splits if_splits)
  show ?thesis
  proof (cases ok)
    case False
    then have "w' = w1" using assms r by (simp add: session_destroy_def)
    then show ?thesis using v1 by simp
  next
    case True
    then obtain w2 where w2: "unregister s w1 = Some w2" "w' = session_delete s w2"
      using assms r by (cases "unregister s w1") (simp_all add: session_destroy_def)
    have "valid (sessions w2 s) = valid (sessions w1 s)"
      using hc_erase_fields(1) [OF unregister_erase [OF w2(1)]] .
    then show ?thesis using v1 w2(2) by (simp add: session_delete_def)
  qed
qed

lemma isHealthy_cases:
  "(\<not> stale a s w \<longrightarrow> isHealthy a s w = Some (True, w))
   \<and> (stale a s w \<and> shouldDropSession (ping a) \<longrightarrow>
        isHealthy a s w = (case session_destroy s False (pinged s w) of
                             None \<Rightarrow> None | Some (_, w2) \<Rightarrow> Some (False, w2)))
   \<and> (stale a s w \<and> \<not> shouldDropSession (ping a) \<longrightarrow>
        isHealthy a s w = (case scheduledHC s (nowScheduled a) (randInt63n a) (pinged s w) of
                             None \<Rightarrow> None | Some w2 \<Rightarrow> Some (True, w2)))"
  by (simp add: isHealthy_def stale_def pinged_def session_ping_def)

lemma scheduledHC_valid:
  assumes "scheduledHC s now r (pinged s' w) = Some w'"
  shows "valid (sessions w' x) = valid (sessions w x)"
proof -
  have "scheduledHCLocked s now r (pinged s' w) = Some w'"
    using assms by (simp add: scheduledHC_def)
  from hc_erase_fields(1) [OF scheduledHCLocked_erase [OF this], of x]
  show ?thesis by (simp add: pinged_def)
qed

lemma takeWrite_prepare_cases:
  "(isWritePrepared s w \<longrightarrow>
      takeWrite_prepare a s w = Some (Handle \<lparr>sh_session = Some s\<rparr>, w))
   \<and> (\<not> isWritePrepared s w \<longrightarrow>
       (\<forall>t. beginTransaction a = Inr t \<longrightarrow>
          takeWrite_prepare a s w
          = Some (Handle \<lparr>sh_session = Some s\<rparr>,
                  setTransactionID s (Some t)
                    (w\<lparr>rpcs := rpcs w @ [BeginTransaction (getID s w)]\<rparr>)))
       \<and> (\<forall>err. beginTransaction a = Inl err \<longrightarrow>
          takeWrite_prepare a s w
          = (case session_recycle s (w\<lparr>rpcs := rpcs w @ [BeginTransaction (getID s w)]\<rparr>) of
               None \<Rightarrow> None
             | Some w2 \<Rightarrow> Some (Failed (toSpannerError (Some err)), w2))))"
  by (simp add: takeWrite_prepare_def prepareForWrite_def Let_def)

lemma takeWrite_prepare_not_Continue:
  "takeWrite_prepare a s w \<noteq> Some (Continue, w')"
  by (auto simp: takeWrite_prepare_def prepareForWrite_def Let_def
      split: sum.splits option.splits)


text \<open>
  Claim C2, as amended. A session popped from an idle list has its link cleared. If its next
  check is not more than twice the interval in the past, no ping is issued: \<^verbatim>\<open>take\<close> returns
  a handle for it, and \<^verbatim>\<open>takeWriteSession\<close> goes on to prepare it for write. Otherwise it
  is pinged. When the ping fails with an error for which \<^verbatim>\<open>shouldDropSession\<close> holds, the
  session is destroyed, it is invalid afterwards, and the loop starts again from its top.
  When the ping succeeds or fails with any other error, the session is rescheduled and kept
  as valid as it was: \<^verbatim>\<open>take\<close> returns a handle for it, and \<^verbatim>\<open>takeWriteSession\<close> goes on to
  prepare it for write. Preparing for write returns a handle at once for a session that
  carries a transaction id, begins a transaction and returns a handle when that succeeds,
  and recycles the session and returns the error when it fails.
\<close>

theorem acquisition_of_popped_session:
  "(pvalid (pool w) \<and> take_pop w = (Some s, w1) \<longrightarrow>
      (\<not> stale a s (unlinked s w1) \<longrightarrow>
         sessionPool_take (a # as) w
         = Some (Handle \<lparr>sh_session = Some s\<rparr>, unlinked s w1))
      \<and> (stale a s (unlinked s w1) \<and> shouldDropSession (ping a) \<longrightarrow>
           (\<forall>b w3. session_destroy s False (pinged s (unlinked s w1)) = Some (b, w3) \<longrightarrow>
              sessionPool_take (a # as) w = sessionPool_take as w3
              \<and> \<not> valid (sessions w3 s)))
      \<and> (stale a s (unlinked s w1) \<and> \<not> shouldDropSession (ping a) \<longrightarrow>
           (\<forall>w3. scheduledHC s (nowScheduled a) (randInt63n a) (pinged s (unlinked s w1))
                   = Some w3 \<longrightarrow>
              sessionPool_take (a # as) w = Some (Handle \<lparr>sh_session = Some s\<rparr>, w3)
              \<and> valid (sessions w3 s) = valid (sessions w s))))
   \<and> (pvalid (pool w) \<and> takeWrite_pop w = (Some s, w1) \<longrightarrow>
      (\<not> stale a s (unlinked s w1) \<longrightarrow>
         sessionPool_takeWriteSession (a # as) w = takeWrite_prepare a s (unlinked s w1))
      \<and> (stale a s (unlinked s w1) \<and> shouldDropSession (ping a) \<longrightarrow>
           (\<forall>b w3. session_destroy s False (pinged s (unlinked s w1)) = Some (b, w3) \<longrightarrow>
              sessionPool_takeWriteSession (a # as) w = sessionPool_takeWriteSession as w3
              \<and> \<not> valid (sessions w3 s)))
      \<and> (stale a s (unlinked s w1) \<and> \<not> shouldDropSession (ping a) \<longrightarrow>
           (\<forall>w3. scheduledHC s (nowScheduled a) (randInt63n a) (pinged s (unlinked s w1))
                   = Some w3 \<longrightarrow>
              sessionPool_takeWriteSession (a # as) w = takeWrite_prepare a s w3
              \<and> valid (sessions w3 s) = valid (sessions w s))))
   \<and> (isWritePrepared s w \<longrightarrow>
        takeWrite_prepare a s w = Some (Handle \<lparr>sh_session = Some s\<rparr>, w))
   \<and> (\<not> isWritePrepared s w \<longrightarrow>
       (\<forall>t. beginTransaction a = Inr t \<longrightarrow>
          takeWrite_prepare a s w
          = Some (Handle \<lparr>sh_session = Some s\<rparr>,
                  setTransactionID s (Some t)
                    (w\<lparr>rpcs := rpcs w @ [BeginTransaction (getID s w)]\<rparr>)))
       \<and> (\<forall>err. beginTransaction a = Inl err \<longrightarrow>
          takeWrite_prepare a s w
          = (case session_recycle s (w\<lparr>rpcs := rpcs w @ [BeginTransaction (getID s w)]\<rparr>) of
               None \<Rightarrow> None
             | Some w2 \<Rightarrow> Some (Failed (toSpannerError (Some err)), w2))))"
proof -
  let ?u = "unlinked s w1"
  have vpop: "\<And>x. take_pop w = (Some s, w1) \<or> takeWrite_pop w = (Some s, w1)
      \<Longrightarrow> valid (sessions ?u x) = valid (sessions w x)"
    by (auto simp: take_pop_def takeWrite_pop_def popFront_def unlinked_def setIdleList_def
        Let_def split: if_splits)
  have T: "pvalid (pool w) \<and> take_pop w = (Some s, w1) \<Longrightarrow>
      take_pass a w = (case isHealthy a s ?u of
                   None \<Rightarrow> None
                 | Some (healthy, w3) \<Rightarrow>
                     if \<not> healthy then Some (Continue, w3)
                     else Some (Handle \<lparr>sh_session = Some s\<rparr>, w3))"
    by (simp add: take_pass_def unlinked_def Let_def)
  have W: "pvalid (pool w) \<and> takeWrite_pop w = (Some s, w1) \<Longrightarrow>
      takeWriteSession_pass a w = (case isHealthy a s ?u of
                   None \<Rightarrow> None
                 | Some (healthy, w3) \<Rightarrow>
                     if \<not> healthy then Some (Continue, w3)
                     else takeWrite_prepare a s w3)"
    by (simp add: takeWriteSession_pass_def unlinked_def Let_def)
  have wp: "sessionPool_takeWriteSession (a # as) w = takeWrite_prepare a s v"
    if "takeWriteSession_pass a w = takeWrite_prepare a s v" for v
  proof (cases "takeWrite_prepare a s v")
    case None
    then show ?thesis using that by simp
  next
    case (Some r)
    obtain out w' where r: "r = (out, w')" by (cases r)
    then have "out \<noteq> Continue" using Some takeWrite_prepare_not_Continue by auto
    then show ?thesis using that Some r by (cases out) simp_all
  qed
  have t1: "pvalid (pool w) \<and> take_pop w = (Some s, w1) \<Longrightarrow> \<not> stale a s ?u \<Longrightarrow>
         sessionPool_take (a # as) w = Some (Handle \<lparr>sh_session = Some s\<rparr>, ?u)"
    using T isHealthy_cases [of a s ?u] by simp
  have t2: "pvalid (pool w) \<and> take_pop w = (Some s, w1) \<Longrightarrow>
      stale a s ?u \<and> shouldDropSession (ping a) \<Longrightarrow>
      session_destroy s False (pinged s ?u) = Some (b, w3) \<Longrightarrow>
      sessionPool_take (a # as) w = sessionPool_take as w3 \<and> \<not> valid (sessions w3 s)"
    for b w3
    using T isHealthy_cases [of a s ?u] session_destroy_invalid [of s "pinged s ?u" b w3]
    by simp
  have t3: "pvalid (pool w) \<and> take_pop w = (Some s, w1) \<Longrightarrow>
      stale a s ?u \<and> \<not> shouldDropSession (ping a) \<Longrightarrow>
      scheduledHC s (nowScheduled a) (randInt63n a) (pinged s ?u) = Some w3 \<Longrightarrow>
      sessionPool_take (a # as) w = Some (Handle \<lparr>sh_session = Some s\<rparr>, w3)
      \<and> valid (sessions w3 s) = valid (sessions w s)" for w3
    using T isHealthy_cases [of a s ?u] scheduledHC_valid [of s _ _ s ?u w3 s] vpop [of s]
    by simp
  have u1: "pvalid (pool w) \<and> takeWrite_pop w = (Some s, w1) \<Longrightarrow> \<not> stale a s ?u \<Longrightarrow>
         sessionPool_takeWriteSession (a # as) w = takeWrite_prepare a s ?u"
    using W isHealthy_cases [of a s ?u] wp [of ?u] by simp
  have u2: "pvalid (pool w) \<and> takeWrite_pop w = (Some s, w1) \<Longrightarrow>
      stale a s ?u \<and> shouldDropSession (ping a) \<Longrightarrow>
      session_destroy s False (pinged s ?u) = Some (b, w3) \<Longrightarrow>
      sessionPool_takeWriteSession (a # as) w = sessionPool_takeWriteSession as w3
      \<and> \<not> valid (sessions w3 s)"
    for b w3
    using W isHealthy_cases [of a s ?u] session_destroy_invalid [of s "pinged s ?u" b w3]
    by simp
  have u3: "pvalid (pool w) \<and> takeWrite_pop w = (Some s, w1) \<Longrightarrow>
      stale a s ?u \<and> \<not> shouldDropSession (ping a) \<Longrightarrow>
      scheduledHC s (nowScheduled a) (randInt63n a) (pinged s ?u) = Some w3 \<Longrightarrow>
      sessionPool_takeWriteSession (a # as) w = takeWrite_prepare a s w3
      \<and> valid (sessions w3 s) = valid (sessions w s)" for w3
    using W isHealthy_cases [of a s ?u] scheduledHC_valid [of s _ _ s ?u w3 s] vpop [of s]
      wp [of w3]
    by simp
  show ?thesis
    using t1 t2 t3 u1 u2 u3 takeWrite_prepare_cases [of s w a] by blast
qed


lemma pool2_eval:
  "pool2 =
     \<lparr>sessions = (\<lambda>s. new_session [])
        (0 := \<lparr>sid = ''s0'', valid = True, hcIndex = 0, idleElem = Some 0,
                nextCheck = 150000001007, checkingHealth = False, tx = None\<rparr>),
      pool = \<lparr>pvalid = True, idleList = [(0, 0)], idleWriteList = [], mayGetSession = 2,
              numOpened = 1, createReqs = 0, prepareReqs = 0, config = cfg0\<rparr>,
      queue = [0],
      interval = 5 * 60 * 1000000000,
      closedChans = {0, 1}, nextChan = 3, nextElem = 1, nextSess = 1, rpcs = [CreateSession],
      openSessionCount = [1]\<rparr>"
  by (auto simp: pool2_def pool1_def sessionPool_recycle_def isValid_def isWritePrepared_def
      Let_def setIdleList_def broadcast_def)

lemma pool2_take_pop:
  "take_pop pool2 = (Some 0, pool2\<lparr>pool := (pool pool2)\<lparr>idleList := []\<rparr>\<rparr>)"
  by (simp add: pool2_eval take_pop_def list_Len_def popFront_def list_Remove_def)

lemma pool2_stale:
  "stale answers1 0 (unlinked 0 (pool2\<lparr>pool := (pool pool2)\<lparr>idleList := []\<rparr>\<rparr>))"
  by (simp add: pool2_eval stale_def unlinked_def setIdleList_def getNextCheck_def answers1_def
      answers0_def)

lemma pool2_scheduledHC:
  "\<exists>w3. scheduledHC 0 (nowScheduled answers1) (randInt63n answers1)
          (pinged 0 (unlinked 0 (pool2\<lparr>pool := (pool pool2)\<lparr>idleList := []\<rparr>\<rparr>))) = Some w3
        \<and> rpcs w3 = [CreateSession, GetSession ''s0'']"
  by (simp add: pool2_eval scheduledHC_def scheduledHCLocked_def pinged_def unlinked_def
      setIdleList_def getID_def Let_def go_div_def setNextCheck_def getHcIndex_def heap_Fix_def
      heap_down_def heap_down_loop.simps hcHeap_Len_def heap_up.simps answers1_def answers0_def)

text \<open>
  The claim as it was stated fails on a ping that fails for another reason. The session
  \<^verbatim>\<open>s0\<close> waits in the read-idle list, its next check lies more than twice the interval in the
  past, and the ping returns Unavailable: \<^verbatim>\<open>take\<close> does ping it, and returns a handle for it
  all the same; the session stays valid.
\<close>

theorem ping_failure_keeps_session:
  "idleList (pool pool2) = [(0, 0)]
   \<and> stale answers1 0 (unlinked 0 (snd (take_pop pool2)))
   \<and> ping answers1 = Some \<lparr>Code = Unavailable, Desc = ''down'', trailers = None\<rparr>
   \<and> (\<exists>w'. sessionPool_take [answers1] pool2 = Some (Handle \<lparr>sh_session = Some 0\<rparr>, w')
          \<and> valid (sessions w' 0)
          \<and> rpcs w' = [CreateSession, GetSession ''s0''])"
proof -
  let ?w1 = "pool2\<lparr>pool := (pool pool2)\<lparr>idleList := []\<rparr>\<rparr>"
  obtain w3 where w3: "scheduledHC 0 (nowScheduled answers1) (randInt63n answers1)
          (pinged 0 (unlinked 0 ?w1)) = Some w3" "rpcs w3 = [CreateSession, GetSession ''s0'']"
    using pool2_scheduledHC by blast
  have nd: "\<not> shouldDropSession (ping answers1)"
    by (simp add: shouldDropSession_def answers1_def answers0_def ErrCode_def)
  have h: "isHealthy answers1 0 (unlinked 0 ?w1) = Some (True, w3)"
    using isHealthy_cases [of answers1 0 "unlinked 0 ?w1"] pool2_stale nd w3(1) by simp
  have t: "sessionPool_take [answers1] pool2 = Some (Handle \<lparr>sh_session = Some 0\<rparr>, w3)"
    using h pool2_take_pop by (simp add: take_pass_def unlinked_def pool2_eval)
  have "valid (sessions w3 0) = valid (sessions ?w1 0)"
    using scheduledHC_valid [OF w3(1), of 0] by (simp add: unlinked_def setIdleList_def)
  then have v: "valid (sessions w3 0)" by (simp add: pool2_eval)
  have "idleList (pool pool2) = [(0, 0)]" by (simp add: pool2_eval)
  moreover have "ping answers1 = Some \<lparr>Code = Unavailable, Desc = ''down'', trailers = None\<rparr>"
    by (simp add: answers1_def answers0_def)
  ultimately show ?thesis using t v w3(2) pool2_stale pool2_take_pop by auto
qed

theorem acquisition_of_popped_session_witness:
  "pvalid (pool pool2) \<and> take_pop pool2 = (Some 0, pool2\<lparr>pool := (pool pool2)\<lparr>idleList := []\<rparr>\<rparr>)
   \<and> \<not> stale answers0 0 (unlinked 0 (pool2\<lparr>pool := (pool pool2)\<lparr>idleList := []\<rparr>\<rparr>))
   \<and> sessionPool_take [answers0] pool2
       = Some (Handle \<lparr>sh_session = Some 0\<rparr>,
               unlinked 0 (pool2\<lparr>pool := (pool pool2)\<lparr>idleList := []\<rparr>\<rparr>))
   \<and> stale answers1 0 (unlinked 0 (pool2\<lparr>pool := (pool pool2)\<lparr>idleList := []\<rparr>\<rparr>))
   \<and> \<not> shouldDropSession (ping answers1)
   \<and> (\<exists>w3. scheduledHC 0 (nowScheduled answers1) (randInt63n answers1)
          (pinged 0 (unlinked 0 (pool2\<lparr>pool := (pool pool2)\<lparr>idleList := []\<rparr>\<rparr>))) = Some w3
        \<and> sessionPool_take [answers1] pool2 = Some (Handle \<lparr>sh_session = Some 0\<rparr>, w3))"
proof -
  let ?w1 = "pool2\<lparr>pool := (pool pool2)\<lparr>idleList := []\<rparr>\<rparr>"
  have p: "pvalid (pool pool2) \<and> take_pop pool2 = (Some 0, ?w1)"
    using pool2_take_pop by (simp add: pool2_eval)
  have ns: "\<not> stale answers0 0 (unlinked 0 ?w1)"
    by (simp add: pool2_eval stale_def unlinked_def setIdleList_def getNextCheck_def
        answers0_def)
  have nd: "\<not> shouldDropSession (ping answers1)"
    by (simp add: shouldDropSession_def answers1_def answers0_def ErrCode_def)
  obtain w3 where w3: "scheduledHC 0 (nowScheduled answers1) (randInt63n answers1)
          (pinged 0 (unlinked 0 ?w1)) = Some w3"
    using pool2_scheduledHC by blast
  have a: "sessionPool_take [answers0] pool2
       = Some (Handle \<lparr>sh_session = Some 0\<rparr>, unlinked 0 ?w1)"
    using acquisition_of_popped_session [of pool2 0 ?w1 answers0 "[]"] p ns by blast
  have b: "sessionPool_take [answers1] pool2 = Some (Handle \<lparr>sh_session = Some 0\<rparr>, w3)"
    using acquisition_of_popped_session [of pool2 0 ?w1 answers1 "[]"] p pool2_stale nd w3
    by blast
  show ?thesis using p ns a pool2_stale nd w3 b by blast
qed

section \<open>Budget and the maintainer's target\<close>

lemma word_succ_le:
  fixes m n :: "64 word"
  shows "m < n \<Longrightarrow> m + 1 \<le> n"
  by (rule inc_le)

lemma take_budget_caps:
  assumes "caps_respected w" "take_budget w = Some w'"
  shows "caps_respected w'"
proof -
  have nc: "\<not> atCapacity w" and w': "w' = takeBudget w"
    using assms(2) by (auto simp: take_budget_def split: if_splits)
  have c: "config (pool w') = config (pool w)"
    "numOpened (pool w') = numOpened (pool w) + 1"
    "createReqs (pool w') = createReqs (pool w) + 1"
    using w' by (simp_all add: takeBudget_def recordStat_def Let_def)
  have a: "MaxOpened (config (pool w)) > 0
      \<Longrightarrow> numOpened (pool w) + 1 \<le> MaxOpened (config (pool w))"
    using nc by (intro word_succ_le) (auto simp: atCapacity_def)
  have b: "MaxBurst (config (pool w)) > 0
      \<Longrightarrow> createReqs (pool w) + 1 \<le> MaxBurst (config (pool w))"
    using nc by (intro word_succ_le) (auto simp: atCapacity_def)
  show ?thesis using a b c by (simp add: caps_respected_def)
qed

lemma maintainer_Replenish_MinOpened:
  assumes "maintainer_decision iteration w = Replenish k"
  shows "k = MinOpened (config (pool w)) \<and> numOpened (pool w) < k"
proof -
  let ?m = "minUint64 (currSessionsOpened w)
          (MaxIdle (config (pool w)) + maintainer_maxSessionsInUse iteration w)"
  have k: "k = maxUint64 (MinOpened (config (pool w))) ?m" "k > currSessionsOpened w"
    using assms
    by (auto simp: maintainer_decision_def maintainer_sessionsToKeep_def Let_def
        split: if_splits)
  have "?m \<le> currSessionsOpened w" by (auto simp: minUint64_def)
  then have "k = MinOpened (config (pool w))"
    using k by (auto simp: maxUint64_def split: if_splits)
  then show ?thesis using k(2) by (simp add: currSessionsOpened_def)
qed

lemma replenish_budget_MaxOpened:
  assumes "validate True (config (pool w))"
    and "maintainer_decision iteration w0 = Replenish k"
    and "config (pool w0) = config (pool w)"
    and "replenish_budget k w = Some w'"
    and "MaxOpened (config (pool w)) > 0"
  shows "numOpened (pool w') \<le> MaxOpened (config (pool w'))"
proof -
  have k: "k = MinOpened (config (pool w))"
    using maintainer_Replenish_MinOpened [OF assms(2)] assms(3) by simp
  have lt: "numOpened (pool w) < k" and w': "w' = takeBudget w"
    using assms(4) by (auto simp: replenish_budget_def split: if_splits)
  have "MinOpened (config (pool w)) \<le> MaxOpened (config (pool w))"
    using assms(1) assms(5) by (auto simp: validate_def split: if_splits)
  then have "numOpened (pool w) + 1 \<le> MaxOpened (config (pool w))"
    using word_succ_le [OF lt] k by simp
  then show ?thesis using w' by (simp add: takeBudget_def recordStat_def Let_def)
qed

text \<open>
  Claim C1. The caps of the pool counters hold as long as only \<^verbatim>\<open>take\<close> and
  \<^verbatim>\<open>takeWriteSession\<close> take budget, and \<^verbatim>\<open>replenishPool\<close> keeps \<^verbatim>\<open>numOpened\<close> under
  \<^verbatim>\<open>MaxOpened\<close>; but \<^verbatim>\<open>replenishPool\<close> does not look at \<^verbatim>\<open>MaxBurst\<close>. With \<^verbatim>\<open>MaxBurst = 1\<close>,
  \<^verbatim>\<open>MinOpened = 2\<close> and \<^verbatim>\<open>MaxOpened = 10\<close>: a \<^verbatim>\<open>take\<close> on the new pool takes budget, and while
  its creation is in flight the maintainer samples the pool, decides to replenish up to two
  sessions and takes budget too. Then \<^verbatim>\<open>createReqs\<close> is 2, above \<^verbatim>\<open>MaxBurst\<close>.
\<close>

theorem replenishPool_exceeds_MaxBurst:
  "newSessionPool True 0 cfg0 = Some pool0
   \<and> caps_respected pool0
   \<and> take_budget pool0 = Some (takeBudget pool0)
   \<and> caps_respected (takeBudget pool0)
   \<and> maintainer_decision 0 (takeBudget pool0) = Replenish 2
   \<and> replenish_budget 2 (takeBudget pool0) = Some (takeBudget (takeBudget pool0))
   \<and> createReqs (pool (takeBudget (takeBudget pool0))) = 2
   \<and> MaxBurst (config (pool (takeBudget (takeBudget pool0)))) = 1
   \<and> \<not> caps_respected (takeBudget (takeBudget pool0))"
proof -
  have le: "\<not> (2::64 word) \<le> 1" by (simp add: word_le_nat_alt)
  show ?thesis
    using le
    by (simp add: newSessionPool_def validate_def cfg0_def pool0_def caps_respected_def
        take_budget_def atCapacity_def takeBudget_def recordStat_def Let_def
        maintainer_decision_def maintainer_sessionsToKeep_def maintainer_maxSessionsInUse_def
        currSessionsInUse_def currSessionsOpened_def list_Len_def maxUint64_def minUint64_def
        windowSize_def replenish_budget_def new_session_def)
qed

lemma maintainer_maxSessionsInUse_current:
  "maintainer_maxSessionsInUse iteration w = currSessionsInUse w"
  by (auto simp: maintainer_maxSessionsInUse_def Let_def word_gt_0)

text \<open>
  Claim C3. The maintainer's target is computed from the current sample alone: the pass that
  samples \<open>quiet5\<close> right after \<open>busy5\<close> keeps two sessions and shrinks the pool, where
  the maximum over the window of the last ten samples, five sessions in use, would keep all
  five.
\<close>

theorem maintainer_forgets_running_max:
  "currSessionsInUse busy5 = 5 \<and> currSessionsInUse quiet5 = 2
   \<and> maintainer_targets 0 [busy5, quiet5] = [5, 2]
   \<and> claimed_sessionsToKeep [quiet5, busy5] = 5
   \<and> maintainer_decision 1 quiet5 = Shrink 2"
  by (simp add: busy5_def quiet5_def pool0_def cfg0_def maintainer_decision_def
      maintainer_sessionsToKeep_def maintainer_maxSessionsInUse_def Let_def
      currSessionsInUse_def currSessionsOpened_def list_Len_def maxUint64_def minUint64_def
      windowSize_def claimed_sessionsToKeep_def claimed_runningMaxInUse_def)

text \<open>
  The caps under the budget steps: a step of \<^verbatim>\<open>take\<close> or \<^verbatim>\<open>takeWriteSession\<close> keeps both
  caps, and a step of \<^verbatim>\<open>replenishPool\<close> towards a target the maintainer chose under a
  validated configuration keeps \<^verbatim>\<open>numOpened\<close> within \<^verbatim>\<open>MaxOpened\<close>.
\<close>

theorem budget_steps_caps:
  "(caps_respected w \<and> take_budget w = Some w' \<longrightarrow> caps_respected w')
   \<and> (validate True (config (pool w))
       \<and> maintainer_decision iteration w0 = Replenish k
       \<and> config (pool w0) = config (pool w)
       \<and> replenish_budget k w = Some w'
       \<and> MaxOpened (config (pool w)) > 0
      \<longrightarrow> numOpened (pool w') \<le> MaxOpened (config (pool w')))"
  using take_budget_caps replenish_budget_MaxOpened by blast

theorem budget_steps_caps_witness:
  "caps_respected pool0 \<and> take_budget pool0 = Some (takeBudget pool0)
   \<and> caps_respected (takeBudget pool0)
   \<and> validate True (config (pool pool0))
   \<and> maintainer_decision 0 pool0 = Replenish 2
   \<and> replenish_budget 2 pool0 = Some (takeBudget pool0)
   \<and> MaxOpened (config (pool pool0)) > 0
   \<and> numOpened (pool (takeBudget pool0)) \<le> MaxOpened (config (pool (takeBudget pool0)))"
proof -
  have a: "caps_respected pool0 \<and> take_budget pool0 = Some (takeBudget pool0)"
    by (simp add: caps_respected_def take_budget_def atCapacity_def pool0_def cfg0_def)
  have b: "validate True (config (pool pool0))
       \<and> maintainer_decision 0 pool0 = Replenish 2
       \<and> config (pool pool0) = config (pool pool0)
       \<and> replenish_budget 2 pool0 = Some (takeBudget pool0)
       \<and> MaxOpened (config (pool pool0)) > 0"
    by (simp add: validate_def pool0_def cfg0_def maintainer_decision_def
        maintainer_sessionsToKeep_def maintainer_maxSessionsInUse_def Let_def
        currSessionsInUse_def currSessionsOpened_def list_Len_def maxUint64_def minUint64_def
        windowSize_def replenish_budget_def)
  show ?thesis
    using a b budget_steps_caps [of pool0 "takeBudget pool0" 0 pool0 2] by blast
qed

section \<open>The stored indices across registration\<close>

lemma hc_inv_outside:
  assumes i: "hc_inv S w" and q: "queue w' = queue w"
    and h: "\<And>x. x \<in> S \<Longrightarrow> hcIndex (sessions w' x) = hcIndex (sessions w x)"
  shows "hc_inv S w'"
proof -
  have sub: "set (queue w) \<subseteq> S" using i by (simp add: hc_inv_def)
  have "\<And>k. k < length (queue w) \<Longrightarrow> queue w ! k \<in> S"
    using sub nth_mem by blast
  then have "synced w'" using i q h by (simp add: hc_inv_def synced_def)
  then show ?thesis using i q h by (simp add: hc_inv_def)
qed

text \<open>
  A session that was just constructed stores the index 0, so \<^verbatim>\<open>scheduledHCLocked\<close> runs
  \<^verbatim>\<open>heap.Fix\<close> at 0 for it: on the empty queue that does nothing, on another queue it sifts
  the session at the front.
\<close>

lemma scheduledHCLocked_new:
  assumes i: "hc_inv S w" and p: "0 < interval w" and z: "hcIndex (sessions w s) = 0"
  shows "\<exists>w'. scheduledHCLocked s now r w = Some w' \<and> hc_inv S w'
            \<and> set (queue w') = set (queue w)"
proof -
  let ?w1 = "setNextCheck s (now + (r + go_div (interval w) 2)) w"
  have q1: "queue ?w1 = queue w" by (simp add: setNextCheck_def)
  have i1: "hc_inv S ?w1"
    using hc_inv_outside [OF i, of ?w1] by (simp add: setNextCheck_def)
  have e: "scheduledHCLocked s now r w = heap_Fix 0 ?w1"
    using p z by (simp add: scheduledHCLocked_def Let_def getHcIndex_def setNextCheck_def)
  show ?thesis
  proof (cases "queue w = []")
    case True
    then have "heap_Fix 0 ?w1 = Some ?w1" using heap_Fix_empty [of ?w1] q1 by simp
    then show ?thesis using e i1 q1 by simp
  next
    case False
    then have "in_queue 0 ?w1" using q1 by (simp add: in_queue_def hcHeap_Len_def)
    moreover have "synced ?w1" using i1 by (simp add: hc_inv_def)
    ultimately obtain w' where f: "heap_Fix 0 ?w1 = Some w'" "heap_step ?w1 w'" "synced w'"
      using heap_Fix_ok by blast
    have "hc_inv S w'" using heap_step_inv [OF i1 f(2) f(3)] .
    moreover have "set (queue w') = set (queue w)" using f(2) q1 by (simp add: heap_step_def)
    ultimately show ?thesis using e f(1) by simp
  qed
qed

lemma heap_Push_new:
  assumes "hc_inv S w" "s \<notin> set (queue w)"
  shows "\<exists>w'. heap_Push s w = Some w' \<and> hc_inv (insert s S) w' \<and> s \<in> set (queue w')"
proof -
  let ?w1 = "hcHeap_Push s w"
  have i1: "hc_inv (insert s S) ?w1" using assms by (rule hcHeap_Push_inv)
  have q: "queue ?w1 = queue w @ [s]" by (simp add: hcHeap_Push_def Let_def setHcIndex_def)
  then have "in_queue (hcHeap_Len ?w1 - 1) ?w1" by (simp add: in_queue_def hcHeap_Len_def)
  moreover have "synced ?w1" using i1 by (simp add: hc_inv_def)
  ultimately obtain w' where u: "heap_up (hcHeap_Len ?w1 - 1) ?w1 = Some w'"
    "heap_step ?w1 w'" "synced w'"
    using heap_up_ok by blast
  have "hc_inv (insert s S) w'" using heap_step_inv [OF i1 u(2) u(3)] .
  moreover have "s \<in> set (queue w')" using u(2) q by (simp add: heap_step_def)
  ultimately show ?thesis using u(1) by (simp add: heap_Push_def Let_def)
qed

lemma register_new:
  assumes i: "hc_inv S w" and p: "0 < interval w" and n: "s \<notin> set (queue w)"
    and z: "hcIndex (sessions w s) = 0"
  shows "\<exists>w'. register s now r w = Some w' \<and> hc_inv (insert s S) w' \<and> s \<in> set (queue w')"
proof -
  obtain w1 where w1: "scheduledHCLocked s now r w = Some w1" "hc_inv S w1"
    "set (queue w1) = set (queue w)"
    using scheduledHCLocked_new [OF i p z] by blast
  have "s \<notin> set (queue w1)" using n w1(3) by simp
  then obtain w' where "heap_Push s w1 = Some w'" "hc_inv (insert s S) w'"
    "s \<in> set (queue w')"
    using heap_Push_new [OF w1(2)] by blast
  then show ?thesis using w1(1) by (simp add: register_def)
qed

lemma doneCreate_queue:
  "queue (doneCreate d w) = queue w" "sessions (doneCreate d w) = sessions w"
  "nextSess (doneCreate d w) = nextSess w"
  by (simp_all add: doneCreate_def Let_def broadcast_def recordStat_def)

lemma hc_inv_doneCreate: "hc_inv S (doneCreate d w) = hc_inv S w"
  by (simp add: hc_inv_def synced_def doneCreate_queue)

lemma createSession_inv:
  assumes i: "hc_inv {s. s < nextSess w} w" and p: "0 < interval w"
  shows "\<exists>res w'. createSession a w = Some (res, w') \<and> hc_inv {s. s < nextSess w'} w'"
proof (cases "getRPCClient a")
  case (Some err)
  then have "createSession a w = Some (Inl err, doneCreate False w)"
    by (simp add: createSession_def)
  then show ?thesis using i by (simp add: hc_inv_doneCreate doneCreate_queue)
next
  case None
  let ?w1 = "w\<lparr>rpcs := rpcs w @ [CreateSession]\<rparr>"
  have i1: "hc_inv {s. s < nextSess ?w1} ?w1" using i by (simp add: hc_inv_def synced_def)
  show ?thesis
  proof (cases "CreateSessionRPC a")
    case (Inl e)
    then have "createSession a w = Some (Inl e, doneCreate False ?w1)"
      using None by (simp add: createSession_def)
    then show ?thesis using i1 by (simp add: hc_inv_doneCreate doneCreate_queue)
  next
    case (Inr name)
    let ?s = "nextSess w"
    let ?w2 = "?w1\<lparr>sessions := (sessions ?w1)(?s := new_session name), nextSess := Suc ?s\<rparr>"
    have c: "createSession a w
        = (case register ?s (nowScheduled a) (randInt63n a) ?w2 of
             None \<Rightarrow> None
           | Some w3 \<Rightarrow> Some (Inr ?s, doneCreate True w3))"
      using None Inr by (simp add: createSession_def Let_def cong del: option.case_cong_weak)
    have i2: "hc_inv {s. s < ?s} ?w2"
      using hc_inv_outside [OF i, of ?w2] by simp
    have n: "?s \<notin> set (queue ?w2)" using i by (auto simp: hc_inv_def)
    have z: "hcIndex (sessions ?w2 ?s) = 0" by (simp add: new_session_def)
    have p2: "0 < interval ?w2" using p by simp
    obtain w3 where w3: "register ?s (nowScheduled a) (randInt63n a) ?w2 = Some w3"
      "hc_inv (insert ?s {s. s < ?s}) w3"
      using register_new [OF i2 p2 n z] by blast
    have "nextSess w3 = Suc ?s"
      using hc_erase_fields(5) [OF register_erase [OF w3(1)]] by simp
    moreover have "insert ?s {s. s < ?s} = {s. s < Suc ?s}" by auto
    ultimately have "hc_inv {s. s < nextSess (doneCreate True w3)} (doneCreate True w3)"
      using w3(2) by (simp add: hc_inv_doneCreate doneCreate_queue)
    then show ?thesis using c w3(1) by simp
  qed
qed

lemma newSessionPool_inv:
  "newSessionPool g h spc = Some w \<Longrightarrow> hc_inv {s. s < nextSess w} w"
  by (auto simp: newSessionPool_def hc_inv_def synced_def split: if_splits)

text \<open>
  Claim C9. The queue keeps the stored indices. Under the invariant \<open>hc_inv S\<close> every
  position of the queue holds a session that stores this position, and every session of
  \<open>S\<close>, the sessions registered so far, that is outside the queue stores \<^verbatim>\<open>-1\<close>. The
  invariant holds again after any sequence of \<^verbatim>\<open>Push\<close>, \<^verbatim>\<open>Pop\<close>, \<^verbatim>\<open>Swap\<close>, \<^verbatim>\<open>heap.Push\<close>,
  \<^verbatim>\<open>heap.Pop\<close>, \<^verbatim>\<open>heap.Fix\<close>, \<^verbatim>\<open>heap.Remove\<close> and \<^verbatim>\<open>unregister\<close> that does not panic and
  pushes no session already in the queue, the pushed sessions joining \<open>S\<close>; and
  \<^verbatim>\<open>unregister\<close> of a session of \<open>S\<close> that is outside the queue changes nothing. A session
  joins through \<^verbatim>\<open>register\<close>, right after its construction: \<^verbatim>\<open>register\<close> returns, the session
  is in the queue and the invariant holds with it. So the invariant holds over all the
  sessions created so far in a new pool and after every \<^verbatim>\<open>createSession\<close>, which returns
  when the interval is positive.
\<close>

theorem hcHeap_indices_synchronised:
  "(hc_inv S w \<longrightarrow>
      (\<forall>i<length (queue w). getHcIndex (queue w ! i) w = int i)
      \<and> (\<forall>s\<in>S. s \<notin> set (queue w) \<longrightarrow> getHcIndex s w = - 1))
   \<and> (hc_inv S w \<and> pushes_new xs w \<and> hc_run xs w = Some w'
      \<longrightarrow> hc_inv (S \<union> \<Union> (pushed ` set xs)) w')
   \<and> (hc_inv S w \<and> s \<in> S \<and> s \<notin> set (queue w) \<longrightarrow> unregister s w = Some w)
   \<and> (hc_inv S w \<and> 0 < interval w \<and> s \<notin> set (queue w) \<and> sessions w s = new_session name
      \<longrightarrow> (\<exists>w1. register s now r w = Some w1 \<and> hc_inv (insert s S) w1
                \<and> s \<in> set (queue w1)))
   \<and> (newSessionPool g h spc = Some w \<longrightarrow> hc_inv {s. s < nextSess w} w)
   \<and> (hc_inv {s. s < nextSess w} w \<and> 0 < interval w
      \<longrightarrow> (\<exists>res w1. createSession a w = Some (res, w1)
                \<and> hc_inv {s. s < nextSess w1} w1))"
proof -
  have a: "hc_inv S w \<Longrightarrow>
      (\<forall>i<length (queue w). getHcIndex (queue w ! i) w = int i)
      \<and> (\<forall>s\<in>S. s \<notin> set (queue w) \<longrightarrow> getHcIndex s w = - 1)"
    by (simp add: hc_inv_def synced_def getHcIndex_def)
  have r: "hc_inv S w \<and> 0 < interval w \<and> s \<notin> set (queue w)
        \<and> sessions w s = new_session name
      \<Longrightarrow> \<exists>w1. register s now r w = Some w1 \<and> hc_inv (insert s S) w1
                \<and> s \<in> set (queue w1)"
    using register_new [of S w s now r] by (simp add: new_session_def)
  show ?thesis
    using a hc_run_inv [of S w xs w'] unregister_unregistered [of S w s] r
      newSessionPool_inv [of g h spc w] createSession_inv [of w a]
    by blast
qed

theorem hcHeap_indices_synchronised_witness:
  "hc_inv {} pool0
   \<and> pushes_new [HeapPush 0, HeapPush 1, HeapRemove 0, Unregister 1] pool0
   \<and> (\<exists>w'. hc_run [HeapPush 0, HeapPush 1, HeapRemove 0, Unregister 1] pool0 = Some w'
          \<and> hc_inv {0, 1} w' \<and> queue w' = []
          \<and> getHcIndex 0 w' = - 1 \<and> getHcIndex 1 w' = - 1
          \<and> unregister 0 w' = Some w')
   \<and> 0 < interval fresh0 \<and> 0 \<notin> set (queue fresh0) \<and> sessions fresh0 0 = new_session ''s0''
   \<and> (\<exists>w1. register 0 1000 7 fresh0 = Some w1 \<and> hc_inv {0} w1 \<and> queue w1 = [0]
          \<and> getHcIndex 0 w1 = 0)
   \<and> newSessionPool True 0 cfg0 = Some pool0
   \<and> 0 < interval pool0
   \<and> (\<exists>res w1. createSession answers0 pool0 = Some (res, w1)
          \<and> hc_inv {s. s < nextSess w1} w1)"
proof -
  let ?xs = "[HeapPush 0, HeapPush 1, HeapRemove 0, Unregister 1]"
  have n: "newSessionPool True 0 cfg0 = Some pool0"
    by (simp add: newSessionPool_def validate_def cfg0_def pool0_def)
  have i0: "hc_inv {s. s < nextSess pool0} pool0"
    using hcHeap_indices_synchronised [of "{}" pool0 "[]" pool0 0 "[]" 0 0 True 0 cfg0 answers0] n
    by blast
  have ns: "nextSess pool0 = 0" "0 < interval pool0" by (simp_all add: pool0_def)
  then have i: "hc_inv {} pool0" using i0 by simp
  have e: "\<exists>w'. hc_run ?xs pool0 = Some w' \<and> queue w' = []"
    and p: "pushes_new ?xs pool0"
    by (simp_all add: pool0_def heap_Push_def hcHeap_Push_def setHcIndex_def hcHeap_Len_def
        Let_def heap_up.simps go_div_def hcHeap_Less_def in_queue_def getNextCheck_def
        new_session_def heap_Remove_def hcHeap_Swap_def heap_down_def heap_down_loop.simps
        hcHeap_Pop_def unregister_def)
  then obtain w' where w': "hc_run ?xs pool0 = Some w'" "queue w' = []" by blast
  have "hc_inv ({} \<union> \<Union> (pushed ` set ?xs)) w'"
    using hcHeap_indices_synchronised [of "{}" pool0 ?xs w'] i p w'(1) by blast
  moreover have "{} \<union> \<Union> (pushed ` set ?xs) = {0, 1}" by auto
  ultimately have inv: "hc_inv {0, 1} w'" by simp
  have m: "(0::nat) \<in> {0, 1} \<and> 0 \<notin> set (queue w')" "(1::nat) \<in> {0, 1} \<and> 1 \<notin> set (queue w')"
    using w'(2) by simp_all
  have u: "unregister 0 w' = Some w'"
    using hcHeap_indices_synchronised [of "{0, 1}" w' "[]" w' 0] inv m(1) by blast
  have "\<forall>s\<in>{0, 1}. s \<notin> set (queue w') \<longrightarrow> getHcIndex s w' = - 1"
    using hcHeap_indices_synchronised [of "{0, 1}" w'] inv by blast
  then have g: "getHcIndex 0 w' = - 1" "getHcIndex 1 w' = - 1" using m by blast+
  have f: "hc_inv {} fresh0" "0 < interval fresh0" "0 \<notin> set (queue fresh0)"
    "sessions fresh0 0 = new_session ''s0''"
    by (simp_all add: fresh0_def pool0_def takeBudget_def recordStat_def Let_def hc_inv_def
        synced_def)
  then obtain w1 where w1: "register 0 1000 7 fresh0 = Some w1" "hc_inv (insert 0 {}) w1"
      "0 \<in> set (queue w1)"
    using hcHeap_indices_synchronised [of "{}" fresh0 "[]" fresh0 0 "''s0''" 1000 7] by blast
  have q1: "set (queue w1) \<subseteq> {0}" "distinct (queue w1)"
    using w1(2) by (simp_all add: hc_inv_def synced_def)
  have "queue w1 = [0]"
  proof (cases "queue w1")
    case Nil
    then show ?thesis using w1(3) by simp
  next
    case (Cons x xs)
    then have "x = 0" "set xs \<subseteq> {0}" "0 \<notin> set xs" using q1 by auto
    then have "xs = []" by (cases xs) auto
    then show ?thesis using Cons \<open>x = 0\<close> by simp
  qed
  moreover have "\<forall>i<length (queue w1). getHcIndex (queue w1 ! i) w1 = int i"
    using hcHeap_indices_synchronised [of "{0}" w1] w1(2) by simp
  ultimately have r: "hc_inv {0} w1 \<and> queue w1 = [0] \<and> getHcIndex 0 w1 = 0"
    using w1(2) by simp
  have c: "\<exists>res w1. createSession answers0 pool0 = Some (res, w1)
          \<and> hc_inv {s. s < nextSess w1} w1"
    using hcHeap_indices_synchronised [of "{}" pool0 "[]" pool0 0 "[]" 0 0 True 0 cfg0 answers0]
      i0 ns(2) by blast
  show ?thesis using i p w' inv g u f(2,3,4) w1(1) r n ns(2) c by blast
qed

section \<open>Expiry, and the sessions held by a worker\<close>

lemma shrink_pass_pick:
  "shrink_pass a k w =
     (if ctxErrSet a then Some (False, w)
      else (case shrink_pick k w of
              None \<Rightarrow> Some (False, w)
            | Some s \<Rightarrow>
                (case session_destroy s True w of
                   None \<Rightarrow> None
                 | Some (_, w1) \<Rightarrow> Some (True, w1))))"
  by (simp add: shrink_pass_def shrink_pick_def Let_def)

lemma take_pass_lone0:
  "take_pass answers0 lone0 = Some (Handle \<lparr>sh_session = Some 0\<rparr>, lone1)"
  by (simp add: take_pass_def lone0_def lone1_def pool0_def pool1_def answers0_def take_pop_def
      list_Len_def
      create_or_wait_def atCapacity_def cfg1_def takeBudget_def recordStat_def createSession_def
      new_session_def register_def scheduledHCLocked_def Let_def go_div_def setNextCheck_def
      getHcIndex_def heap_Fix_def heap_down_def heap_down_loop.simps hcHeap_Len_def
      heap_up.simps heap_Push_def hcHeap_Push_def setHcIndex_def doneCreate_def broadcast_def)

lemma lone2_eval:
  "lone2 =
     \<lparr>sessions = (\<lambda>s. new_session [])
        (0 := \<lparr>sid = ''s0'', valid = True, hcIndex = 0, idleElem = Some 0,
                nextCheck = 150000001007, checkingHealth = False, tx = None\<rparr>),
      pool = \<lparr>pvalid = True, idleList = [(0, 0)], idleWriteList = [], mayGetSession = 2,
              numOpened = 1, createReqs = 0, prepareReqs = 0, config = cfg1\<rparr>,
      queue = [0],
      interval = 5 * 60 * 1000000000,
      closedChans = {0, 1}, nextChan = 3, nextElem = 1, nextSess = 1, rpcs = [CreateSession],
      openSessionCount = [1]\<rparr>"
  by (auto simp: lone2_def lone1_def pool1_def sessionPool_recycle_def isValid_def
      isWritePrepared_def Let_def setIdleList_def broadcast_def)

lemma lone3_eval:
  "lone3 =
     \<lparr>sessions = (\<lambda>s. new_session [])
        (0 := \<lparr>sid = ''s0'', valid = True, hcIndex = 0, idleElem = Some 0,
                nextCheck = 150000001007, checkingHealth = True, tx = None\<rparr>),
      pool = \<lparr>pvalid = True, idleList = [], idleWriteList = [], mayGetSession = 2,
              numOpened = 1, createReqs = 0, prepareReqs = 1, config = cfg1\<rparr>,
      queue = [0],
      interval = 5 * 60 * 1000000000,
      closedChans = {0, 1}, nextChan = 3, nextElem = 1, nextSess = 1, rpcs = [CreateSession],
      openSessionCount = [1]\<rparr>"
  by (simp add: lone3_def lone2_eval getNextForTx_def answers0_def list_Len_def popFront_def
      list_Remove_def new_session_def Let_def)

text \<open>
  Claim C5. An expiry-driven \<^verbatim>\<open>remove\<close> is to reject a session that is in no idle list, and
  it tests the link of the session for that. A worker of the health checker that takes a
  session from the read-idle list, to prepare it for write, leaves the link in place, where
  \<^verbatim>\<open>take\<close> and \<^verbatim>\<open>takeWriteSession\<close> clear it. On a pool without a floor: the session \<^verbatim>\<open>s0\<close> is
  created and handed out, and its handle is recycled, which puts it into the read-idle list; the maintainer decides to
  shrink the pool to no session and \<^verbatim>\<open>shrinkPool\<close> selects \<^verbatim>\<open>s0\<close>; before \<^verbatim>\<open>shrinkPool\<close>
  destroys it, a worker takes \<^verbatim>\<open>s0\<close> from the list. Now \<^verbatim>\<open>s0\<close> is in no idle list, and the
  expiry-driven \<^verbatim>\<open>remove\<close> returns true all the same: the session is invalidated and
  \<^verbatim>\<open>numOpened\<close> goes from 1 to 0.
\<close>

theorem expiry_removes_session_held_by_worker:
  "newSessionPool True 0 cfg1 = Some lone0
   \<and> take_pass answers0 lone0 = Some (Handle \<lparr>sh_session = Some 0\<rparr>, lone1)
   \<and> sessionHandle_recycle \<lparr>sh_session = Some 0\<rparr> lone1
       = Some (\<lparr>sh_session = None\<rparr>, lone2)
   \<and> in_idle_list 0 lone2
   \<and> maintainer_decision 0 lone2 = Shrink 0
   \<and> shrink_pick 0 lone2 = Some 0
   \<and> getNextForTx (answers0\<lparr>shouldPrepareWrite := True\<rparr>) lone2 = (Some 0, lone3)
   \<and> \<not> in_idle_list 0 lone3
   \<and> valid (sessions lone3 0)
   \<and> numOpened (pool lone3) = 1
   \<and> fst (sessionPool_remove 0 True lone3)
   \<and> \<not> valid (sessions (snd (sessionPool_remove 0 True lone3)) 0)
   \<and> numOpened (pool (snd (sessionPool_remove 0 True lone3))) = 0
   \<and> map_option fst (session_destroy 0 True lone3) = Some True"
proof -
  have a: "newSessionPool True 0 cfg1 = Some lone0"
    by (simp add: newSessionPool_def validate_def cfg1_def lone0_def pool0_def)
  have b: "sessionHandle_recycle \<lparr>sh_session = Some 0\<rparr> lone1
       = Some (\<lparr>sh_session = None\<rparr>, lone2)"
    by (simp add: sessionHandle_recycle_def session_recycle_def setTransactionID_def lone2_def
        sessionPool_recycle_def lone1_def pool1_def isValid_def isWritePrepared_def Let_def
        setIdleList_def broadcast_def)
  have c: "in_idle_list 0 lone2" "maintainer_decision 0 lone2 = Shrink 0"
    "shrink_pick 0 lone2 = Some 0"
    by (simp_all add: lone2_eval in_idle_list_def maintainer_decision_def
        maintainer_sessionsToKeep_def maintainer_maxSessionsInUse_def Let_def
        currSessionsInUse_def currSessionsOpened_def list_Len_def maxUint64_def minUint64_def
        windowSize_def shrink_pick_def cfg1_def)
  have d: "getNextForTx (answers0\<lparr>shouldPrepareWrite := True\<rparr>) lone2 = (Some 0, lone3)"
    by (simp add: lone3_def lone2_eval getNextForTx_def answers0_def list_Len_def popFront_def
        list_Remove_def new_session_def Let_def)
  have e: "\<not> in_idle_list 0 lone3" "valid (sessions lone3 0)" "numOpened (pool lone3) = 1"
    by (simp_all add: lone3_eval in_idle_list_def)
  have r: "fst (sessionPool_remove 0 True lone3)"
    "\<not> valid (sessions (snd (sessionPool_remove 0 True lone3)) 0)"
    "numOpened (pool (snd (sessionPool_remove 0 True lone3))) = 0"
    by (simp_all add: lone3_eval sessionPool_remove_def getIdleList_def cfg1_def Let_def
        setIdleList_def list_Remove_def invalidate_def recordStat_def broadcast_def)
  have f: "map_option fst (session_destroy 0 True lone3) = Some True"
    by (simp add: lone3_eval session_destroy_def sessionPool_remove_def getIdleList_def cfg1_def
        Let_def setIdleList_def list_Remove_def invalidate_def recordStat_def broadcast_def
        unregister_def setHcIndex_def heap_Remove_def hcHeap_Len_def hcHeap_Pop_def
        session_delete_def)
  show ?thesis using a take_pass_lone0 b c d e r f by simp
qed

text \<open>
  What the guard of an expiry-driven \<^verbatim>\<open>remove\<close> does give: \<^verbatim>\<open>remove\<close> returns false and
  changes nothing when \<^verbatim>\<open>numOpened <= MinOpened\<close> or when the link of the session is nil. So
  it never takes \<^verbatim>\<open>numOpened\<close> below \<^verbatim>\<open>MinOpened\<close>, and it rejects every session that a pass
  of \<^verbatim>\<open>take\<close> or \<^verbatim>\<open>takeWriteSession\<close> has just handed out: the link of such a session is nil.
\<close>

theorem sessionPool_remove_expiry_guard:
  "(numOpened (pool w) \<le> MinOpened (config (pool w)) \<or> getIdleList s w = None
      \<longrightarrow> sessionPool_remove s True w = (False, w))
   \<and> (MinOpened (config (pool w)) \<le> numOpened (pool w)
      \<longrightarrow> MinOpened (config (pool (snd (sessionPool_remove s True w))))
           \<le> numOpened (pool (snd (sessionPool_remove s True w))))
   \<and> (take_pass a w = Some (Handle h, w') \<or> takeWriteSession_pass a w = Some (Handle h, w')
      \<longrightarrow> (\<exists>s'. sh_session h = Some s' \<and> sessionPool_remove s' True w' = (False, w')))"
  using sessionPool_remove_reject sessionPool_remove_floor take_pass_Handle_unlinked
    takeWriteSession_pass_Handle_unlinked
  by blast

theorem sessionPool_remove_expiry_guard_witness:
  "MinOpened (config (pool lone1)) < numOpened (pool lone1)
   \<and> getIdleList 0 lone1 = None
   \<and> sessionPool_remove 0 True lone1 = (False, lone1)
   \<and> take_pass answers0 lone0 = Some (Handle \<lparr>sh_session = Some 0\<rparr>, lone1)
   \<and> MinOpened (config (pool (pool2\<lparr>pool := (pool pool2)\<lparr>numOpened := 3\<rparr>\<rparr>)))
       \<le> numOpened (pool (pool2\<lparr>pool := (pool pool2)\<lparr>numOpened := 3\<rparr>\<rparr>))
   \<and> fst (sessionPool_remove 0 True (pool2\<lparr>pool := (pool pool2)\<lparr>numOpened := 3\<rparr>\<rparr>))
   \<and> numOpened (pool (snd (sessionPool_remove 0 True
          (pool2\<lparr>pool := (pool pool2)\<lparr>numOpened := 3\<rparr>\<rparr>)))) = 2
   \<and> MinOpened (config (pool (snd (sessionPool_remove 0 True
          (pool2\<lparr>pool := (pool pool2)\<lparr>numOpened := 3\<rparr>\<rparr>)))))
       \<le> numOpened (pool (snd (sessionPool_remove 0 True
          (pool2\<lparr>pool := (pool pool2)\<lparr>numOpened := 3\<rparr>\<rparr>))))"
proof -
  let ?w = "pool2\<lparr>pool := (pool pool2)\<lparr>numOpened := 3\<rparr>\<rparr>"
  let ?h = "\<lparr>sh_session = Some (0::nat)\<rparr>"
  have lt: "(0::64 word) < 1" "(2::64 word) \<le> 3" "\<not> (3::64 word) \<le> 2"
    by (simp_all add: word_le_nat_alt)
  have a: "MinOpened (config (pool lone1)) < numOpened (pool lone1)"
    "getIdleList 0 lone1 = None"
    using lt by (simp_all add: getIdleList_def lone1_def pool1_def cfg1_def)
  have b: "MinOpened (config (pool ?w)) \<le> numOpened (pool ?w)"
    using lt by (simp add: pool2_eval cfg0_def)
  have c: "fst (sessionPool_remove 0 True ?w)"
    "numOpened (pool (snd (sessionPool_remove 0 True ?w))) = 2"
    using lt
    by (simp_all add: pool2_eval sessionPool_remove_def getIdleList_def cfg0_def Let_def
        setIdleList_def list_Remove_def invalidate_def recordStat_def broadcast_def)
  have d: "sessionPool_remove 0 True lone1 = (False, lone1)"
    using a(2) sessionPool_remove_expiry_guard [of lone1 0 answers0 ?h lone1] by blast
  have "\<exists>s'. sh_session ?h = Some s' \<and> sessionPool_remove s' True lone1 = (False, lone1)"
    using take_pass_lone0 sessionPool_remove_expiry_guard [of lone0 0 answers0 ?h lone1]
    by blast
  then have d': "sessionPool_remove 0 True lone1 = (False, lone1)" by simp
  have e: "MinOpened (config (pool (snd (sessionPool_remove 0 True ?w))))
       \<le> numOpened (pool (snd (sessionPool_remove 0 True ?w)))"
    using b sessionPool_remove_expiry_guard [of ?w 0 answers0 ?h lone1] by blast
  show ?thesis using a b c d d' e take_pass_lone0 by blast
qed

text \<open>
  A session that a worker took from the read-idle list to prepare it for write keeps its
  link: \<^verbatim>\<open>getNextForTx\<close> does not clear it, as \<^verbatim>\<open>take\<close> and \<^verbatim>\<open>takeWriteSession\<close> do. While
  the worker holds it, an expiry-driven \<^verbatim>\<open>remove\<close> of it goes through when the session is
  valid and \<^verbatim>\<open>numOpened\<close> is above \<^verbatim>\<open>MinOpened\<close>.
\<close>

theorem worker_held_session_can_expire:
  "getNextForTx a w = (Some s, w1) \<and> valid (sessions w s)
   \<and> MinOpened (config (pool w)) < numOpened (pool w)
   \<longrightarrow> getIdleList s w1 = getIdleList s w
       \<and> (getIdleList s w \<noteq> None \<longrightarrow> fst (sessionPool_remove s True w1))"
proof (intro impI)
  assume h: "getNextForTx a w = (Some s, w1) \<and> valid (sessions w s)
   \<and> MinOpened (config (pool w)) < numOpened (pool w)"
  then have c: "shouldPrepareWrite a" "list_Len (idleList (pool w)) > 0 \<and> pvalid (pool w)"
    "\<not> checkingHealth (sessions w (snd (hd (idleList (pool w)))))"
    by (auto simp: getNextForTx_def split: if_splits)
  obtain s' l where p: "popFront (idleList (pool w)) = (s', l)"
    by (cases "popFront (idleList (pool w))")
  have s: "s' = s" and w1: "w1 = w\<lparr>pool := (pool w)\<lparr>idleList := l,
        prepareReqs := prepareReqs (pool w) + 1\<rparr>,
      sessions := (sessions w)(s := (sessions w s)\<lparr>checkingHealth := True\<rparr>)\<rparr>"
    using h c p by (auto simp: getNextForTx_def Let_def)
  have a: "getIdleList s w1 = getIdleList s w" using w1 by (simp add: getIdleList_def)
  have b: "getIdleList s w \<noteq> None \<Longrightarrow> fst (sessionPool_remove s True w1)"
    using h w1
    by (auto simp: sessionPool_remove_def getIdleList_def Let_def setIdleList_def
        invalidate_def not_le split: option.splits)
  show "getIdleList s w1 = getIdleList s w
       \<and> (getIdleList s w \<noteq> None \<longrightarrow> fst (sessionPool_remove s True w1))"
    using a b by blast
qed

theorem worker_held_session_can_expire_witness:
  "getNextForTx (answers0\<lparr>shouldPrepareWrite := True\<rparr>)
       (pool2\<lparr>pool := (pool pool2)\<lparr>numOpened := 3\<rparr>\<rparr>)
     = (Some 0, pool2\<lparr>pool := (pool pool2)\<lparr>numOpened := 3, idleList := [], prepareReqs := 1\<rparr>,
                     sessions := (sessions pool2)
                       (0 := (sessions pool2 0)\<lparr>checkingHealth := True\<rparr>)\<rparr>)
   \<and> valid (sessions (pool2\<lparr>pool := (pool pool2)\<lparr>numOpened := 3\<rparr>\<rparr>) 0)
   \<and> MinOpened (config (pool (pool2\<lparr>pool := (pool pool2)\<lparr>numOpened := 3\<rparr>\<rparr>)))
       < numOpened (pool (pool2\<lparr>pool := (pool pool2)\<lparr>numOpened := 3\<rparr>\<rparr>))
   \<and> getIdleList 0 (pool2\<lparr>pool := (pool pool2)\<lparr>numOpened := 3\<rparr>\<rparr>) = Some 0
   \<and> fst (sessionPool_remove 0 True
        (pool2\<lparr>pool := (pool pool2)\<lparr>numOpened := 3, idleList := [], prepareReqs := 1\<rparr>,
               sessions := (sessions pool2)
                 (0 := (sessions pool2 0)\<lparr>checkingHealth := True\<rparr>)\<rparr>))"
proof -
  let ?w = "pool2\<lparr>pool := (pool pool2)\<lparr>numOpened := 3\<rparr>\<rparr>"
  let ?w1 = "pool2\<lparr>pool := (pool pool2)\<lparr>numOpened := 3, idleList := [], prepareReqs := 1\<rparr>,
                     sessions := (sessions pool2)
                       (0 := (sessions pool2 0)\<lparr>checkingHealth := True\<rparr>)\<rparr>"
  have lt: "(2::64 word) < 3" by (simp add: word_less_nat_alt)
  have g: "getNextForTx (answers0\<lparr>shouldPrepareWrite := True\<rparr>) ?w = (Some 0, ?w1)"
    by (simp add: getNextForTx_def pool2_eval answers0_def list_Len_def popFront_def
        list_Remove_def new_session_def)
  have v: "valid (sessions ?w 0)"
    "MinOpened (config (pool ?w)) < numOpened (pool ?w)" "getIdleList 0 ?w = Some 0"
    using lt by (simp_all add: pool2_eval cfg0_def getIdleList_def)
  have "fst (sessionPool_remove 0 True ?w1)"
    using worker_held_session_can_expire [of "answers0\<lparr>shouldPrepareWrite := True\<rparr>" ?w 0 ?w1]
      g v by simp
  then show ?thesis using g v by blast
qed

end
